theory Spec2Isabelle
  imports Main "HOL-Library.Word"
begin

unbundle bit_operations_syntax

section \<open>Reading of PDF tokens and objects from a raw byte stream (lex.go)\<close>

text \<open>
  A shallow embedding of \<^verbatim>\<open>lex.go\<close>. Bytes are \<^typ>\<open>char\<close> (8 bits), Go strings and
  byte slices are \<^typ>\<open>string\<close>. The Go methods mutate a \<^verbatim>\<open>*buffer\<close>; here every
  function takes the buffer and returns the updated one next to its result.
  Diagnostics that the code only prints (\<^verbatim>\<open>fmt.Printf\<close>) are not part of the state
  and are left out; so is the field \<^verbatim>\<open>tmp\<close>, scratch space that every reader
  reslices to length 0 before use and whose contents are never read.
  \<^verbatim>\<open>b.errorf\<close> is \<^verbatim>\<open>fmt.Sprintf\<close>: it builds a string and changes nothing.
  \<^verbatim>\<open>seekForward\<close> is called by no function of this file and is not modelled.
\<close>

subsection \<open>Data model\<close>

text \<open>\<^verbatim>\<open>type objptr struct { id uint32; gen uint16 }\<close>\<close>

record objptr =
  obj_id :: "32 word"
  gen :: "16 word"

text \<open>
  Go \<^verbatim>\<open>error\<close> values that occur: \<^verbatim>\<open>io.EOF\<close>, delivered by the byte reader, and the
  error that \<^verbatim>\<open>readObject\<close> builds with \<^verbatim>\<open>errors.New\<close> for a keyword in object
  position (it carries the keyword).
\<close>

datatype goerror = EOF | UnexpectedKeyword string

text \<open>
  \<^verbatim>\<open>type token interface{}\<close> and \<^verbatim>\<open>type object interface{}\<close> are the same Go type;
  \<^verbatim>\<open>readObject\<close> hands tokens on as objects unchanged. One datatype lists the
  dynamic types that a value of this interface holds in \<^verbatim>\<open>lex.go\<close>:
  \<^verbatim>\<open>nil\<close>, \<^verbatim>\<open>bool\<close>, \<^verbatim>\<open>int64\<close>, \<^verbatim>\<open>float64\<close>, \<^verbatim>\<open>string\<close>, \<^verbatim>\<open>keyword\<close>, \<^verbatim>\<open>name\<close>,
  \<^verbatim>\<open>error\<close>, \<^verbatim>\<open>dict\<close>, \<^verbatim>\<open>array\<close>, \<^verbatim>\<open>stream\<close>, \<^verbatim>\<open>objptr\<close>, \<^verbatim>\<open>objdef\<close>.
  An \<^verbatim>\<open>int64\<close> is an \<^typ>\<open>int\<close> that \<^verbatim>\<open>strconv.ParseInt\<close> has clamped to the 64-bit
  range. A \<^verbatim>\<open>float64\<close> is kept as the text given to \<^verbatim>\<open>strconv.ParseFloat\<close>; the
  code never computes with it. \<^verbatim>\<open>type dict map[name]object\<close> is a finite map.
\<close>

datatype object =
    Null
  | Bool bool
  | Int64 int
  | Float64 string
  | Str string
  | Keyword string
  | Name string
  | Err goerror
  | Dict "string \<rightharpoonup> object"
  | Array "object list"
  | Stream "string \<rightharpoonup> object" objptr int
  | Objptr objptr
  | Objdef objptr object

type_synonym token = object

type_synonym dict = "string \<rightharpoonup> object"

text \<open>
  Modelled from the spec: the underlying byte reader (\<^verbatim>\<open>io.Reader\<close>, the field
  \<^verbatim>\<open>r\<close>) is an external collaborator; the spec asks for "any byte source offering
  sequential reads". It is modelled as the bytes not yet delivered, with the
  behaviour of an in-memory reader: \<^verbatim>\<open>Read(p)\<close> returns \<^verbatim>\<open>(0, io.EOF)\<close> when nothing
  is left, and otherwise copies as many bytes as fit into \<^verbatim>\<open>p\<close> and returns no error.
\<close>

type_synonym reader = string

definition Read :: "reader \<Rightarrow> nat \<Rightarrow> string \<times> goerror option \<times> reader" where
  "Read rd n = (if rd = [] then ([], Some EOF, rd) else (take n rd, None, drop n rd))"

text \<open>
  \<^verbatim>\<open>type buffer struct\<close>. The field \<^verbatim>\<open>r\<close> is \<open>rdr\<close> here. \<^verbatim>\<open>offset\<close> is a file
  position handed to \<^verbatim>\<open>newBuffer\<close> or \<^verbatim>\<open>seek\<close> and advanced by the bytes read; it is
  a natural number (a negative \<^verbatim>\<open>int64\<close> is no file position). \<^verbatim>\<open>key\<close> is a slice
  that may be \<^verbatim>\<open>nil\<close>.
\<close>

record buffer =
  rdr :: reader
  buf :: string
  pos :: nat
  offset :: nat
  unread :: "token list"
  allowEOF :: bool
  allowObjptr :: bool
  allowStream :: bool
  eof :: bool
  key :: "string option"
  useAES :: bool
  objptr :: objptr

text \<open>\<^verbatim>\<open>cap(b.buf)\<close>: \<^verbatim>\<open>newBuffer\<close> allocates 4096 bytes and no other code reallocates.\<close>

definition bufcap :: nat where
  "bufcap = 4096"

definition newBuffer :: "reader \<Rightarrow> nat \<Rightarrow> buffer" where
  "newBuffer rd off =
     \<lparr>rdr = rd, buf = [], pos = 0, offset = off, unread = [],
      allowEOF = False, allowObjptr = True, allowStream = True, eof = False,
      key = None, useAES = False, objptr = \<lparr>obj_id = 0, gen = 0\<rparr>\<rparr>"

definition seek :: "nat \<Rightarrow> buffer \<Rightarrow> buffer" where
  "seek off b = b\<lparr>offset := off, buf := [], pos := 0, unread := []\<rparr>"

subsection \<open>Byte Source\<close>

definition LF :: char where "LF = CHR 0x0A"
definition CR :: char where "CR = CHR 0x0D"
definition BSL :: char where "BSL = CHR 0x5C"

text \<open>
  \<^verbatim>\<open>reload\<close>: asks the reader for the bytes up to the next multiple of the
  capacity. With no byte and an error the buffer is emptied and, under
  \<^verbatim>\<open>allowEOF\<close> at \<^verbatim>\<open>io.EOF\<close>, the flag \<^verbatim>\<open>eof\<close> is set; both ways the result is
  \<^verbatim>\<open>(false, err)\<close>. The deferred \<^verbatim>\<open>recover\<close> has nothing to catch: with a
  natural offset the slice \<^verbatim>\<open>b.buf[:n]\<close> stays within the capacity.
\<close>

definition reload :: "buffer \<Rightarrow> bool \<times> goerror option \<times> buffer" where
  "reload b =
     (case Read (rdr b) (bufcap - offset b mod bufcap) of
        (data, err, rd') \<Rightarrow>
          if length data = 0 \<and> err \<noteq> None then
            (if allowEOF b \<and> err = Some EOF
             then (False, err, b\<lparr>rdr := rd', buf := [], pos := 0, eof := True\<rparr>)
             else (False, err, b\<lparr>rdr := rd', buf := [], pos := 0\<rparr>))
          else (True, err,
                b\<lparr>rdr := rd', offset := offset b + length data, buf := data, pos := 0\<rparr>))"

text \<open>\<^verbatim>\<open>readByte\<close>: on every failure the byte returned is \<^verbatim>\<open>'\n'\<close>.\<close>

definition readByte :: "buffer \<Rightarrow> char \<times> goerror option \<times> buffer" where
  "readByte b =
     (if pos b \<ge> length (buf b) then
        (case reload b of
           (rel, err, b1) \<Rightarrow>
             if err \<noteq> None then (LF, err, b1)
             else if \<not> rel then (LF, err, b1)
             else if pos b1 \<ge> length (buf b1) then (LF, None, b1)
             else (buf b1 ! pos b1, None, b1\<lparr>pos := pos b1 + 1\<rparr>))
      else (buf b ! pos b, None, b\<lparr>pos := pos b + 1\<rparr>))"

definition readOffset :: "buffer \<Rightarrow> int" where
  "readOffset b = int (offset b) - int (length (buf b)) + int (pos b)"

definition unreadByte :: "buffer \<Rightarrow> buffer" where
  "unreadByte b = (if pos b > 0 then b\<lparr>pos := pos b - 1\<rparr> else b)"

definition unreadToken :: "token \<Rightarrow> buffer \<Rightarrow> buffer" where
  "unreadToken t b = b\<lparr>unread := unread b @ [t]\<rparr>"

definition isSpace :: "char \<Rightarrow> bool" where
  "isSpace c \<longleftrightarrow>
     c = CHR 0x00 \<or> c = CHR 0x09 \<or> c = CHR 0x0A \<or> c = CHR 0x0C \<or> c = CHR 0x0D \<or> c = CHR '' ''"

definition isDelim :: "char \<Rightarrow> bool" where
  "isDelim c \<longleftrightarrow>
     c = CHR ''<'' \<or> c = CHR ''>'' \<or> c = CHR ''('' \<or> c = CHR '')'' \<or> c = CHR ''['' \<or>
     c = CHR '']'' \<or> c = CHR ''{'' \<or> c = CHR ''}'' \<or> c = CHR ''/'' \<or> c = CHR ''%''"

text \<open>The bytes that the buffer and the reader still hold: the measure of every loop.\<close>

definition remaining :: "buffer \<Rightarrow> nat" where
  "remaining b = length (rdr b) + (length (buf b) - pos b)"

lemma bufcap_chunk_pos: "0 < bufcap - n mod bufcap"
  by (simp add: bufcap_def)

lemma Read_ok:
  "Read rd n = (data, None, rd') \<Longrightarrow> 0 < n \<Longrightarrow>
     data \<noteq> [] \<and> length data + length rd' = length rd"
  by (auto simp: Read_def split: if_splits)

lemma Read_fail: "Read rd n = (data, Some e, rd') \<Longrightarrow> data = [] \<and> rd' = [] \<and> rd = []"
  by (auto simp: Read_def split: if_splits)

lemma reload_ok:
  "reload b = (rel, None, b1) \<Longrightarrow>
     rel \<and> 0 < length (buf b1) \<and> pos b1 = 0 \<and>
     length (buf b1) + length (rdr b1) = length (rdr b)"
proof -
  assume a: "reload b = (rel, None, b1)"
  obtain data err rd' where r: "Read (rdr b) (bufcap - offset b mod bufcap) = (data, err, rd')"
    by (cases "Read (rdr b) (bufcap - offset b mod bufcap)") auto
  from a r have e: "err = None"
    by (auto simp: reload_def split: if_splits)
  from Read_ok [OF r [unfolded e] bufcap_chunk_pos]
  have d: "data \<noteq> []" "length data + length rd' = length (rdr b)" by auto
  from a r e d show ?thesis
    by (auto simp: reload_def split: if_splits)
qed

lemma reload_fail:
  "reload b = (rel, Some e, b1) \<Longrightarrow>
     \<not> rel \<and> buf b1 = [] \<and> pos b1 = 0 \<and> rdr b1 = [] \<and> rdr b = []"
proof -
  assume a: "reload b = (rel, Some e, b1)"
  obtain data err rd' where r: "Read (rdr b) (bufcap - offset b mod bufcap) = (data, err, rd')"
    by (cases "Read (rdr b) (bufcap - offset b mod bufcap)") auto
  from a r have e: "err = Some e"
    by (auto simp: reload_def split: if_splits)
  from Read_fail [OF r [unfolded e]] a r e show ?thesis
    by (auto simp: reload_def split: if_splits)
qed

lemma readByte_ok_remaining:
  "readByte b = (c, None, b1) \<Longrightarrow> remaining b1 < remaining b"
proof (cases "pos b \<ge> length (buf b)")
  case False
  assume "readByte b = (c, None, b1)"
  with False show ?thesis
    by (auto simp: readByte_def remaining_def)
next
  case True
  assume a: "readByte b = (c, None, b1)"
  obtain rel err b0 where r: "reload b = (rel, err, b0)"
    by (cases "reload b") auto
  from a r True have e: "err = None"
    by (auto simp: readByte_def split: if_splits)
  from reload_ok [OF r [unfolded e]] a r e True show ?thesis
    by (cases "buf b0") (auto simp: readByte_def remaining_def split: if_splits)
qed

lemma readByte_remaining_le:
  "readByte b = (c, err, b1) \<Longrightarrow> remaining b1 \<le> remaining b"
proof (cases err)
  case None
  assume "readByte b = (c, err, b1)"
  with None readByte_ok_remaining [of b c b1] show ?thesis by simp
next
  case (Some e)
  assume a: "readByte b = (c, err, b1)"
  obtain rel err0 b0 where r: "reload b = (rel, err0, b0)"
    by (cases "reload b") auto
  from a r Some have e: "err0 = Some e \<and> b1 = b0"
    by (auto simp: readByte_def split: if_splits)
  from reload_fail [of b rel e b0] r e show ?thesis
    by (simp add: remaining_def)
qed

lemma unreadByte_remaining: "remaining (unreadByte b) \<le> remaining b + 1"
  by (auto simp: unreadByte_def remaining_def)

lemma readByte_unread_remaining:
  "readByte b = (c, None, b1) \<Longrightarrow> remaining (unreadByte b1) \<le> remaining b"
  using readByte_ok_remaining [of b c b1] unreadByte_remaining [of b1] by simp


lemma readByte_dec: "(c, None, b1) = readByte b \<Longrightarrow> remaining b1 < remaining b"
  by (rule readByte_ok_remaining [OF sym])

lemma readByte_le: "(c, err, b1) = readByte b \<Longrightarrow> remaining b1 \<le> remaining b"
  by (rule readByte_remaining_le [OF sym])

lemma readByte_dec3:
  "(c, None, b1) = readByte b \<Longrightarrow> (d, e1, b2) = readByte b1 \<Longrightarrow>
   (e, e2, b3) = readByte b2 \<Longrightarrow> remaining b3 < remaining b"
  using readByte_dec [of c b1 b] readByte_le [of d e1 b2 b1] readByte_le [of e e2 b3 b2]
  by simp

subsection \<open>Tokenizer\<close>

abbreviation ord :: "char \<Rightarrow> int" where
  "ord c \<equiv> of_char c"

definition unhex :: "char \<Rightarrow> int" where
  "unhex c =
     (if ord CHR ''0'' \<le> ord c \<and> ord c \<le> ord CHR ''9'' then ord c - ord CHR ''0''
      else if ord CHR ''a'' \<le> ord c \<and> ord c \<le> ord CHR ''f'' then ord c - ord CHR ''a'' + 10
      else if ord CHR ''A'' \<le> ord c \<and> ord c \<le> ord CHR ''F'' then ord c - ord CHR ''A'' + 10
      else - 1)"

text \<open>
  \<^verbatim>\<open>isInteger\<close> and \<^verbatim>\<open>isReal\<close> range over the runes of \<^verbatim>\<open>s\<close>; a byte outside ASCII
  decodes to a rune above \<^verbatim>\<open>'9'\<close>, so the test is the same byte by byte.
\<close>

definition dropSign :: "string \<Rightarrow> string" where
  "dropSign s = (if length s > 0 \<and> (hd s = CHR ''+'' \<or> hd s = CHR ''-'') then tl s else s)"

definition isInteger :: "string \<Rightarrow> bool" where
  "isInteger s \<longleftrightarrow>
     length (dropSign s) \<noteq> 0 \<and>
     list_all (\<lambda>c. \<not> (ord c < ord CHR ''0'' \<or> ord CHR ''9'' < ord c)) (dropSign s)"

definition isReal :: "string \<Rightarrow> bool" where
  "isReal s \<longleftrightarrow>
     length (dropSign s) \<noteq> 0 \<and>
     list_all (\<lambda>c. c = CHR ''.'' \<or> \<not> (ord c < ord CHR ''0'' \<or> ord CHR ''9'' < ord c)) (dropSign s) \<and>
     length (filter (\<lambda>c. c = CHR ''.'') (dropSign s)) = 1"

text \<open>
  \<^verbatim>\<open>strconv.ParseInt(s, 10, 64)\<close> (Go's library) on a text that \<^verbatim>\<open>isInteger\<close> accepts:
  the decimal value, and on overflow the largest or smallest \<^verbatim>\<open>int64\<close> (the code
  prints the range error and keeps that value).
\<close>

definition ParseInt :: "string \<Rightarrow> int" where
  "ParseInt s =
     (let neg = (length s > 0 \<and> hd s = CHR ''-'');
          un = foldl (\<lambda>a c. 10 * a + (ord c - ord CHR ''0'')) 0 (dropSign s)
      in if \<not> neg \<and> un \<ge> 2 ^ 63 then 2 ^ 63 - 1
         else if neg \<and> un > 2 ^ 63 then - (2 ^ 63)
         else if neg then - un else un)"

text \<open>The \<^verbatim>\<open>switch\<close> that ends \<^verbatim>\<open>readKeyword\<close>.\<close>

definition readKeyword_classify :: "string \<Rightarrow> token" where
  "readKeyword_classify s =
     (if s = ''true'' then Bool True
      else if s = ''false'' then Bool False
      else if isInteger s then Int64 (ParseInt s)
      else if isReal s then Float64 s
      else Keyword s)"

function readKeyword_loop :: "string \<Rightarrow> buffer \<Rightarrow> token \<times> buffer" where
  "readKeyword_loop tmp b =
     (case readByte b of
        (c, err, b1) \<Rightarrow>
          (case err of
             Some e \<Rightarrow> (Err e, b1)
           | None \<Rightarrow>
               if isDelim c \<or> isSpace c then (readKeyword_classify tmp, unreadByte b1)
               else readKeyword_loop (tmp @ [c]) b1))"
  by pat_completeness auto
termination
  by (relation "measure (\<lambda>(tmp, b). remaining b)") (auto intro: readByte_dec)

declare readKeyword_loop.simps [simp del]

definition readKeyword :: "buffer \<Rightarrow> token \<times> buffer" where
  "readKeyword b = readKeyword_loop [] b"

text \<open>
  \<^verbatim>\<open>readName\<close>: after \<^verbatim>\<open>#\<close> both bytes are read before either error is looked at,
  and the value returned then is the outer \<^verbatim>\<open>err\<close>, which is \<^verbatim>\<open>nil\<close> at that point.
\<close>

function readName_loop :: "string \<Rightarrow> buffer \<Rightarrow> token \<times> buffer" where
  "readName_loop tmp b =
     (case readByte b of
        (c, err, b1) \<Rightarrow>
          (case err of
             Some e \<Rightarrow> (Err e, b1)
           | None \<Rightarrow>
               if isDelim c \<or> isSpace c then (Name tmp, unreadByte b1)
               else if c = CHR ''#'' then
                 (case readByte b1 of
                    (d, err1, b2) \<Rightarrow>
                      (case readByte b2 of
                         (e, err2, b3) \<Rightarrow>
                           if err1 \<noteq> None \<or> err2 \<noteq> None then (Null, b3)
                           else readName_loop (tmp @ [char_of (push_bit 4 (unhex d) OR unhex e)]) b3))
               else readName_loop (tmp @ [c]) b1))"
  by pat_completeness auto
termination
  by (relation "measure (\<lambda>(tmp, b). remaining b)")
    (auto intro: readByte_dec readByte_dec3)

declare readName_loop.simps [simp del]

definition readName :: "buffer \<Rightarrow> token \<times> buffer" where
  "readName b = readName_loop [] b"

text \<open>\<^verbatim>\<open>readHexString\<close>: the label \<^verbatim>\<open>Loop2\<close> (read the second digit, skipping spaces).\<close>

function readHexString_Loop2 :: "buffer \<Rightarrow> (goerror + char) \<times> buffer" where
  "readHexString_Loop2 b =
     (case readByte b of
        (c2, err, b1) \<Rightarrow>
          (case err of
             Some e \<Rightarrow> (Inl e, b1)
           | None \<Rightarrow> if isSpace c2 then readHexString_Loop2 b1 else (Inr c2, b1)))"
  by pat_completeness auto
termination
  by (relation "measure remaining") (auto intro: readByte_dec)

declare readHexString_Loop2.simps [simp del]

lemma readHexString_Loop2_remaining:
  "readHexString_Loop2 b = (res, b') \<Longrightarrow> remaining b' \<le> remaining b"
proof (induction b arbitrary: res b' rule: readHexString_Loop2.induct)
  case (1 b)
  obtain c2 err b1 where r: "readByte b = (c2, err, b1)"
    by (cases "readByte b") auto
  show ?case
  proof (cases err)
    case (Some e)
    with r "1.prems" readByte_remaining_le [OF r] show ?thesis
      by (simp add: readHexString_Loop2.simps [of b])
  next
    case None
    show ?thesis
    proof (cases "isSpace c2")
      case True
      with r None "1.prems" have "readHexString_Loop2 b1 = (res, b')"
        by (simp add: readHexString_Loop2.simps [of b])
      from "1.IH" [OF r [symmetric] refl None True this] readByte_remaining_le [OF r]
      show ?thesis by simp
    next
      case False
      with r None "1.prems" readByte_remaining_le [OF r] show ?thesis
        by (simp add: readHexString_Loop2.simps [of b])
    qed
  qed
qed

lemma readByte_Loop2_dec:
  "(c, None, b1) = readByte b \<Longrightarrow> (res, b2) = readHexString_Loop2 b1 \<Longrightarrow>
   remaining b2 < remaining b"
  using readByte_dec [of c b1 b] readHexString_Loop2_remaining [of b1 res b2] by simp

function readHexString_loop :: "string \<Rightarrow> buffer \<Rightarrow> token \<times> buffer" where
  "readHexString_loop tmp b =
     (case readByte b of
        (c, err, b1) \<Rightarrow>
          (case err of
             Some e \<Rightarrow> (Err e, b1)
           | None \<Rightarrow>
               if c = CHR ''>'' then (Str tmp, b1)
               else if isSpace c then readHexString_loop tmp b1
               else
                 (case readHexString_Loop2 b1 of
                    (Inl e, b2) \<Rightarrow> (Err e, b2)
                  | (Inr c2, b2) \<Rightarrow>
                      if push_bit 4 (unhex c) OR unhex c2 < 0 then (Str tmp, b2)
                      else readHexString_loop
                             (tmp @ [char_of (push_bit 4 (unhex c) OR unhex c2)]) b2)))"
  by pat_completeness auto
termination
  by (relation "measure (\<lambda>(tmp, b). remaining b)")
    (auto intro: readByte_dec readByte_Loop2_dec)

declare readHexString_loop.simps [simp del]

definition readHexString :: "buffer \<Rightarrow> token \<times> buffer" where
  "readHexString b = readHexString_loop [] b"


text \<open>
  \<^verbatim>\<open>readLiteralString\<close>, the octal escape: \<^verbatim>\<open>for i := 0; i < 2; i++\<close> reads up to two
  more digits; the second argument counts the rounds still to run.
\<close>

fun readLiteralString_octal :: "int \<Rightarrow> nat \<Rightarrow> buffer \<Rightarrow> (goerror + int) \<times> buffer" where
  "readLiteralString_octal x 0 b = (Inr x, b)"
| "readLiteralString_octal x (Suc i) b =
     (case readByte b of
        (c, err, b1) \<Rightarrow>
          (case err of
             Some e \<Rightarrow> (Inl e, b1)
           | None \<Rightarrow>
               if ord c < ord CHR ''0'' \<or> ord c > ord CHR ''7'' then (Inr x, unreadByte b1)
               else readLiteralString_octal (x * 8 + (ord c - ord CHR ''0'')) i b1))"

lemma readLiteralString_octal_remaining:
  "readLiteralString_octal x i b = (res, b') \<Longrightarrow> remaining b' \<le> remaining b"
proof (induction x i b arbitrary: res b' rule: readLiteralString_octal.induct)
  case (1 x b)
  then show ?case by simp
next
  case (2 x i b)
  obtain c err b1 where r: "readByte b = (c, err, b1)"
    by (cases "readByte b") auto
  show ?case
  proof (cases err)
    case (Some e)
    with r "2.prems" readByte_remaining_le [OF r] show ?thesis by simp
  next
    case None
    show ?thesis
    proof (cases "ord c < ord CHR ''0'' \<or> ord c > ord CHR ''7''")
      case True
      with r None "2.prems" have "b' = unreadByte b1" by auto
      with readByte_unread_remaining [OF r [unfolded None]] show ?thesis by simp
    next
      case False
      with r None "2.prems"
      have "readLiteralString_octal (x * 8 + (ord c - ord CHR ''0'')) i b1 = (res, b')"
        by auto
      from "2.IH" [OF r [symmetric] refl None False this] readByte_remaining_le [OF r]
      show ?thesis by simp
    qed
  qed
qed

text \<open>
  \<^verbatim>\<open>readLiteralString\<close>, the loop \<^verbatim>\<open>for !b.eof\<close>. The inner \<^verbatim>\<open>switch\<close> looks at the byte
  after the backslash before it looks at the error; a failed read delivers
  \<^verbatim>\<open>'\n'\<close>, which selects the case \<^verbatim>\<open>'\n'\<close> and not \<^verbatim>\<open>default\<close>.
\<close>

function readLiteralString_loop :: "string \<Rightarrow> int \<Rightarrow> buffer \<Rightarrow> token \<times> buffer" where
  "readLiteralString_loop tmp depth b =
     (if eof b then (Str tmp, b)
      else
        (case readByte b of
           (c, err, b1) \<Rightarrow>
             (case err of
                Some e \<Rightarrow> (Err e, b1)
              | None \<Rightarrow>
                  if c = CHR ''('' then readLiteralString_loop (tmp @ [c]) (depth + 1) b1
                  else if c = CHR '')'' then
                    (if depth - 1 = 0 then (Str tmp, b1)
                     else readLiteralString_loop (tmp @ [c]) (depth - 1) b1)
                  else if c = BSL then
                    (case readByte b1 of
                       (c2, err2, b2) \<Rightarrow>
                         if c2 = CHR ''n'' then readLiteralString_loop (tmp @ [CHR 0x0A]) depth b2
                         else if c2 = CHR ''r'' then readLiteralString_loop (tmp @ [CHR 0x0D]) depth b2
                         else if c2 = CHR ''b'' then readLiteralString_loop (tmp @ [CHR 0x08]) depth b2
                         else if c2 = CHR ''t'' then readLiteralString_loop (tmp @ [CHR 0x09]) depth b2
                         else if c2 = CHR ''f'' then readLiteralString_loop (tmp @ [CHR 0x0C]) depth b2
                         else if c2 = CHR ''('' \<or> c2 = CHR '')'' \<or> c2 = BSL then
                           readLiteralString_loop (tmp @ [c2]) depth b2
                         else if c2 = CR then
                           (case readByte b2 of
                              (d, err3, b3) \<Rightarrow>
                                (case err3 of
                                   Some e \<Rightarrow> (Err e, b3)
                                 | None \<Rightarrow>
                                     readLiteralString_loop tmp depth
                                       (if d \<noteq> LF then unreadByte b3 else b3)))
                         else if c2 = LF then readLiteralString_loop tmp depth b2
                         else if ord CHR ''0'' \<le> ord c2 \<and> ord c2 \<le> ord CHR ''7'' then
                           (case readLiteralString_octal (ord c2 - ord CHR ''0'') 2 b2 of
                              (Inl e, b3) \<Rightarrow> (Err e, b3)
                            | (Inr x, b3) \<Rightarrow> readLiteralString_loop (tmp @ [char_of x]) depth b3)
                         else
                           (case err2 of
                              Some e \<Rightarrow> (Err e, b2)
                            | None \<Rightarrow> readLiteralString_loop (tmp @ [BSL, c2]) depth b2))
                  else readLiteralString_loop (tmp @ [c]) depth b1)))"
  by pat_completeness auto

lemma readLiteralString_term1:
  "(x, y) = readByte b \<Longrightarrow> (xa, ya) = y \<Longrightarrow> xa = None \<Longrightarrow>
   ((t', d', ya), (t, d, b)) \<in> measure (\<lambda>(tmp, depth, b). remaining b)"
  using readByte_dec [of x ya b] by simp

lemma readLiteralString_term2:
  "(x, y) = readByte b \<Longrightarrow> (xa, ya) = y \<Longrightarrow> xa = None \<Longrightarrow>
   (xb, yb) = readByte ya \<Longrightarrow> (xc, yc) = yb \<Longrightarrow>
   ((t', d', yc), (t, d, b)) \<in> measure (\<lambda>(tmp, depth, b). remaining b)"
  using readByte_dec [of x ya b] readByte_le [of xb xc yc ya] by simp

lemma readLiteralString_term3:
  "(x, y) = readByte b \<Longrightarrow> (xa, ya) = y \<Longrightarrow> xa = None \<Longrightarrow>
   (xb, yb) = readByte ya \<Longrightarrow> (xc, yc) = yb \<Longrightarrow>
   (xd, yd) = readByte yc \<Longrightarrow> (xe, ye) = yd \<Longrightarrow> xe = None \<Longrightarrow>
   ((t', d', if xd \<noteq> LF then unreadByte ye else ye), (t, d, b)) \<in> measure (\<lambda>(tmp, depth, b). remaining b)"
  using readByte_dec [of x ya b] readByte_le [of xb xc yc ya]
    readByte_unread_remaining [of yc xd ye] readByte_dec [of xd ye yc] by simp

lemma readLiteralString_term4:
  "(x, y) = readByte b \<Longrightarrow> (xa, ya) = y \<Longrightarrow> xa = None \<Longrightarrow>
   (xb, yb) = readByte ya \<Longrightarrow> (xc, yc) = yb \<Longrightarrow>
   (xd, yd) = readLiteralString_octal v i yc \<Longrightarrow>
   ((t', d', yd), (t, d, b)) \<in> measure (\<lambda>(tmp, depth, b). remaining b)"
  using readByte_dec [of x ya b] readByte_le [of xb xc yc ya]
    readLiteralString_octal_remaining [of v i yc xd yd] by simp

termination readLiteralString_loop
proof (relation "measure (\<lambda>(tmp, depth, b). remaining b)", goal_cases)
  case 1
  show ?case by simp
qed ((rule readLiteralString_term1; assumption
      | rule readLiteralString_term2; assumption
      | rule readLiteralString_term3; assumption
      | rule readLiteralString_term4; assumption)+)

declare readLiteralString_loop.simps [simp del]

definition readLiteralString :: "buffer \<Rightarrow> token \<times> buffer" where
  "readLiteralString b = readLiteralString_loop [] 1 b"

text \<open>\<^verbatim>\<open>readToken\<close>: the inner loop that skips a comment up to CR or LF.\<close>

function readToken_comment :: "char \<Rightarrow> buffer \<Rightarrow> (goerror + char) \<times> buffer" where
  "readToken_comment c b =
     (if c \<noteq> CR \<and> c \<noteq> LF then
        (case readByte b of
           (c', err, b1) \<Rightarrow>
             (case err of
                Some e \<Rightarrow> (Inl e, b1)
              | None \<Rightarrow> readToken_comment c' b1))
      else (Inr c, b))"
  by pat_completeness auto
termination
  by (relation "measure (\<lambda>(c, b). remaining b)") (auto intro: readByte_dec)

declare readToken_comment.simps [simp del]

lemma readToken_comment_remaining:
  "readToken_comment c b = (res, b') \<Longrightarrow> remaining b' \<le> remaining b"
proof (induction c b arbitrary: res b' rule: readToken_comment.induct)
  case (1 c b)
  show ?case
  proof (cases "c \<noteq> CR \<and> c \<noteq> LF")
    case False
    with "1.prems" show ?thesis
      by (simp add: readToken_comment.simps [of c b])
  next
    case True
    obtain c' err b1 where r: "readByte b = (c', err, b1)"
      by (cases "readByte b") auto
    show ?thesis
    proof (cases err)
      case (Some e)
      with r True "1.prems" readByte_remaining_le [OF r] show ?thesis
        by (simp add: readToken_comment.simps [of c b])
    next
      case None
      with r True "1.prems" have "readToken_comment c' b1 = (res, b')"
        by (simp add: readToken_comment.simps [of c b])
      from "1.IH" [OF True r [symmetric] refl None this] readByte_remaining_le [OF r]
      show ?thesis by simp
    qed
  qed
qed

lemma readToken_comment_dec:
  assumes "(Inr c', b') = readToken_comment c b" and "c \<noteq> CR" and "c \<noteq> LF"
  shows "remaining b' < remaining b"
proof -
  obtain c1 err b1 where r: "readByte b = (c1, err, b1)"
    by (cases "readByte b") auto
  show ?thesis
  proof (cases err)
    case (Some e)
    with r assms show ?thesis
      by (simp add: readToken_comment.simps [of c b])
  next
    case None
    with r assms have "readToken_comment c1 b1 = (Inr c', b')"
      by (simp add: readToken_comment.simps [of c b])
    from readToken_comment_remaining [OF this] readByte_ok_remaining [OF r [unfolded None]]
    show ?thesis by simp
  qed
qed

text \<open>\<^verbatim>\<open>readToken\<close>: the loop that finds the first non-space, non-comment byte.\<close>

function readToken_skip :: "char \<Rightarrow> buffer \<Rightarrow> (token + char) \<times> buffer" where
  "readToken_skip c b =
     (if isSpace c then
        (if eof b then (Inl (Err EOF), b)
         else
           (case readByte b of
              (c', err, b1) \<Rightarrow>
                (case err of
                   Some e \<Rightarrow> (Inl (Err e), b1)
                 | None \<Rightarrow> readToken_skip c' b1)))
      else if c = CHR ''%'' then
        (case readToken_comment c b of
           (Inl e, b1) \<Rightarrow> (Inl (Err e), b1)
         | (Inr c', b1) \<Rightarrow> readToken_skip c' b1)
      else (Inr c, b))"
  by pat_completeness auto
termination
  by (relation "measure (\<lambda>(c, b). remaining b)")
    (auto intro: readByte_dec readToken_comment_dec simp: CR_def LF_def)

declare readToken_skip.simps [simp del]

text \<open>
  The message of \<^verbatim>\<open>b.errorf("unexpected delimiter %#q", rune(c))\<close>: \<^verbatim>\<open>%q\<close> of a rune is
  the character between single quotes. The value returned is a Go \<^verbatim>\<open>string\<close>.
\<close>

definition unexpected_delimiter :: "char \<Rightarrow> string" where
  "unexpected_delimiter c = ''unexpected delimiter '' @ [CHR 0x27, c, CHR 0x27]"

text \<open>The \<^verbatim>\<open>default\<close> case of the \<^verbatim>\<open>switch\<close> in \<^verbatim>\<open>readToken\<close>.\<close>

definition readToken_default :: "char \<Rightarrow> buffer \<Rightarrow> token \<times> buffer" where
  "readToken_default c b =
     (if isDelim c then (Str (unexpected_delimiter c), b)
      else readKeyword (unreadByte b))"

text \<open>The \<^verbatim>\<open>switch c\<close> of \<^verbatim>\<open>readToken\<close>; the case \<^verbatim>\<open>'>'\<close> falls through to \<^verbatim>\<open>default\<close>.\<close>

definition readToken_switch :: "char \<Rightarrow> buffer \<Rightarrow> token \<times> buffer" where
  "readToken_switch c b =
     (if c = CHR ''<'' then
        (case readByte b of
           (d, err, b1) \<Rightarrow>
             (case err of
                Some e \<Rightarrow> (Err e, b1)
              | None \<Rightarrow>
                  if d = CHR ''<'' then (Keyword ''<<'', b1)
                  else readHexString (unreadByte b1)))
      else if c = CHR ''('' then readLiteralString b
      else if c = CHR ''['' \<or> c = CHR '']'' \<or> c = CHR ''{'' \<or> c = CHR ''}'' then (Keyword [c], b)
      else if c = CHR ''/'' then readName b
      else if c = CHR ''>'' then
        (case readByte b of
           (d, err, b1) \<Rightarrow>
             (case err of
                Some e \<Rightarrow> (Err e, b1)
              | None \<Rightarrow>
                  if d = CHR ''>'' then (Keyword ''>>'', b1)
                  else readToken_default c (unreadByte b1)))
      else readToken_default c b)"

definition readToken :: "buffer \<Rightarrow> token \<times> buffer" where
  "readToken b =
     (if length (unread b) > 0 then (last (unread b), b\<lparr>unread := butlast (unread b)\<rparr>)
      else
        (case readByte b of
           (c, err, b1) \<Rightarrow>
             (case err of
                Some e \<Rightarrow> (Err e, b1)
              | None \<Rightarrow>
                  (case readToken_skip c b1 of
                     (Inl t, b2) \<Rightarrow> (t, b2)
                   | (Inr c', b2) \<Rightarrow> readToken_switch c' b2))))"



subsection \<open>Object Reader\<close>

text \<open>
  \<^verbatim>\<open>decryptString\<close> is defined in another file of the package; it is a parameter
  \<open>dec\<close> of the object reader, applied to \<^verbatim>\<open>b.key\<close>, \<^verbatim>\<open>b.useAES\<close>, \<^verbatim>\<open>b.objptr\<close> and the
  string.

  \<^verbatim>\<open>readObject\<close>, \<^verbatim>\<open>readArray\<close> and \<^verbatim>\<open>readDict\<close> call each other, and their loops
  need not end (at the end of the input \<^verbatim>\<open>readToken\<close> keeps returning the read
  error, which neither loop takes as its end). The three functions therefore
  carry fuel: every call and every round of a loop uses one unit, and \<open>None\<close>
  means that the fuel did not suffice. A computation that returns does so for
  every larger amount of fuel (\<open>readObject_fuel_mono\<close> below); one that runs forever
  is \<open>None\<close> for every amount.
\<close>

type_synonym decrypt = "string \<Rightarrow> bool \<Rightarrow> objptr \<Rightarrow> string \<Rightarrow> string"

text \<open>\<^verbatim>\<open>int64(uint32(t1)) == t1\<close> and \<^verbatim>\<open>int64(uint16(t2)) == t2\<close>.\<close>

definition fits_uint32 :: "int \<Rightarrow> bool" where
  "fits_uint32 t \<longleftrightarrow> t mod 2 ^ 32 = t"

definition fits_uint16 :: "int \<Rightarrow> bool" where
  "fits_uint16 t \<longleftrightarrow> t mod 2 ^ 16 = t"

text \<open>\<^verbatim>\<open>objptr{uint32(t1), uint16(t2)}\<close>\<close>

definition mk_objptr :: "int \<Rightarrow> int \<Rightarrow> objptr" where
  "mk_objptr t1 t2 = \<lparr>obj_id = word_of_int t1, gen = word_of_int t2\<rparr>"

text \<open>The type assertion \<^verbatim>\<open>obj.(stream)\<close>.\<close>

fun is_stream :: "object \<Rightarrow> bool" where
  "is_stream (Stream hdr ptr off) = True"
| "is_stream obj = False"

text \<open>
  \<^verbatim>\<open>if str, ok := tok.(string); ok && b.key != nil && b.objptr.id != 0\<close>:
  the decryption of a string token in \<^verbatim>\<open>readObject\<close>.
\<close>

definition readObject_decrypt :: "decrypt \<Rightarrow> buffer \<Rightarrow> token \<Rightarrow> token" where
  "readObject_decrypt dec b tok =
     (case tok of
        Str s \<Rightarrow>
          if key b \<noteq> None \<and> obj_id (objptr b) \<noteq> 0
          then Str (dec (the (key b)) (useAES b) (objptr b) s)
          else tok
      | _ \<Rightarrow> tok)"

text \<open>
  The end of \<^verbatim>\<open>readDict\<close>, after the loop: the test of \<^verbatim>\<open>allowStream\<close>, the token
  \<^verbatim>\<open>stream\<close> and the line ending behind it. The message of \<^verbatim>\<open>b.errorf\<close> is
  returned as a Go \<^verbatim>\<open>string\<close>.
\<close>

definition readDict_stream :: "dict \<Rightarrow> buffer \<Rightarrow> object \<times> buffer" where
  "readDict_stream x b =
     (if \<not> allowStream b then (Dict x, b)
      else
        (case readToken b of
           (tok, b1) \<Rightarrow>
             if tok \<noteq> Keyword ''stream'' then (Dict x, unreadToken tok b1)
             else
               (case readByte b1 of
                  (c, err, b2) \<Rightarrow>
                    if c = CR then
                      (case err of
                         Some e \<Rightarrow> (Err e, b2)
                       | None \<Rightarrow>
                           (case readByte b2 of
                              (d, err2, b3) \<Rightarrow>
                                (case err2 of
                                   Some e \<Rightarrow> (Err e, b3)
                                 | None \<Rightarrow>
                                     if d \<noteq> LF
                                     then (Stream x (objptr b3) (readOffset (unreadByte b3)),
                                           unreadByte b3)
                                     else (Stream x (objptr b3) (readOffset b3), b3))))
                    else if c = LF then
                      (case err of
                         Some e \<Rightarrow> (Err e, b2)
                       | None \<Rightarrow> (Stream x (objptr b2) (readOffset b2), b2))
                    else
                      (case err of
                         Some e \<Rightarrow> (Err e, b2)
                       | None \<Rightarrow> (Str ''stream keyword not followed by newline'', b2)))))"

text \<open>
  \<^verbatim>\<open>readObject\<close> returns \<^verbatim>\<open>(object, error)\<close>; \<^verbatim>\<open>readArray\<close> and \<^verbatim>\<open>readDict\<close> return
  an \<^verbatim>\<open>object\<close> only (\<^verbatim>\<open>return b.readDict(), nil\<close>). \<open>readArray_loop\<close> is the \<^verbatim>\<open>for\<close> loop of \<^verbatim>\<open>readArray\<close> with the
  slice \<^verbatim>\<open>x\<close> built so far; \<open>readDict_loop\<close> is the \<^verbatim>\<open>for\<close> loop of \<^verbatim>\<open>readDict\<close> with the
  map \<^verbatim>\<open>x\<close>, and its result is \<open>Inl\<close> for the \<^verbatim>\<open>return nil\<close> inside the loop and
  \<open>Inr\<close> for the map at \<^verbatim>\<open>break\<close>.
\<close>

fun readObject :: "decrypt \<Rightarrow> nat \<Rightarrow> buffer \<Rightarrow> ((object \<times> goerror option) \<times> buffer) option"
  and readArray :: "decrypt \<Rightarrow> nat \<Rightarrow> buffer \<Rightarrow> (object \<times> buffer) option"
  and readDict :: "decrypt \<Rightarrow> nat \<Rightarrow> buffer \<Rightarrow> (object \<times> buffer) option"
  and readArray_loop :: "decrypt \<Rightarrow> nat \<Rightarrow> object list \<Rightarrow> buffer \<Rightarrow> (object \<times> buffer) option"
  and readDict_loop :: "decrypt \<Rightarrow> nat \<Rightarrow> dict \<Rightarrow> buffer \<Rightarrow> ((object + dict) \<times> buffer) option"
where
  "readObject dec 0 b = None"
| "readObject dec (Suc n) b =
     (case readToken b of
        (tok, b1) \<Rightarrow>
          (case tok of
             Keyword kw \<Rightarrow>
               if kw = ''null'' then Some ((Null, None), b1)
               else if kw = ''<<'' then
                 (case readDict dec n b1 of
                    None \<Rightarrow> None
                  | Some (obj, b2) \<Rightarrow> Some ((obj, None), b2))
               else if kw = ''['' then
                 (case readArray dec n b1 of
                    None \<Rightarrow> None
                  | Some (obj, b2) \<Rightarrow> Some ((obj, None), b2))
               else Some ((Null, Some (UnexpectedKeyword kw)), b1)
           | _ \<Rightarrow>
               if \<not> allowObjptr b1 then Some ((readObject_decrypt dec b1 tok, None), b1)
               else
                 (case readObject_decrypt dec b1 tok of
                    Int64 t1 \<Rightarrow>
                      if fits_uint32 t1 then
                        (case readToken b1 of
                           (tok2, b2) \<Rightarrow>
                             (case tok2 of
                                Int64 t2 \<Rightarrow>
                                  if fits_uint16 t2 then
                                    (case readToken b2 of
                                       (tok3, b3) \<Rightarrow>
                                         if tok3 = Keyword ''R'' then
                                           Some ((Objptr (mk_objptr t1 t2), None), b3)
                                         else if tok3 = Keyword ''obj'' then
                                           (case readObject dec n (b3\<lparr>objptr := mk_objptr t1 t2\<rparr>) of
                                              None \<Rightarrow> None
                                            | Some ((obj, err), b4) \<Rightarrow>
                                                (case err of
                                                   Some e \<Rightarrow> Some ((Null, Some e), b4)
                                                 | None \<Rightarrow>
                                                     if \<not> is_stream obj then
                                                       (case readToken b4 of
                                                          (tok4, b5) \<Rightarrow>
                                                            if tok4 \<noteq> Keyword ''endobj'' then
                                                              Some ((Objdef (mk_objptr t1 t2) obj, None),
                                                                    (unreadToken tok4 b5)\<lparr>objptr := objptr b3\<rparr>)
                                                            else
                                                              Some ((Objdef (mk_objptr t1 t2) obj, None),
                                                                    b5\<lparr>objptr := objptr b3\<rparr>))
                                                     else
                                                       Some ((Objdef (mk_objptr t1 t2) obj, None),
                                                             b4\<lparr>objptr := objptr b3\<rparr>)))
                                         else
                                           Some ((Int64 t1, None),
                                                 unreadToken tok2 (unreadToken tok3 b3)))
                                  else Some ((Int64 t1, None), unreadToken tok2 b2)
                              | _ \<Rightarrow> Some ((Int64 t1, None), unreadToken tok2 b2)))
                      else Some ((Int64 t1, None), b1)
                  | tok' \<Rightarrow> Some ((tok', None), b1))))"
| "readArray dec 0 b = None"
| "readArray dec (Suc n) b = readArray_loop dec n [] b"
| "readDict dec 0 b = None"
| "readDict dec (Suc n) b =
     (case readDict_loop dec n Map.empty b of
        None \<Rightarrow> None
      | Some (Inl obj, b1) \<Rightarrow> Some (obj, b1)
      | Some (Inr x, b1) \<Rightarrow> Some (readDict_stream x b1))"
| "readArray_loop dec 0 x b = None"
| "readArray_loop dec (Suc n) x b =
     (case readToken b of
        (tok, b1) \<Rightarrow>
          if tok = Null \<or> tok = Keyword '']'' then Some (Array x, b1)
          else
            (case readObject dec n (unreadToken tok b1) of
               None \<Rightarrow> None
             | Some ((res, err), b2) \<Rightarrow>
                 (case err of
                    Some e \<Rightarrow> Some (Err e, b2)
                  | None \<Rightarrow> readArray_loop dec n (x @ [res]) b2)))"
| "readDict_loop dec 0 x b = None"
| "readDict_loop dec (Suc n) x b =
     (case readToken b of
        (tok, b1) \<Rightarrow>
          if tok = Null \<or> tok = Keyword ''>>'' then Some (Inr x, b1)
          else
            (case tok of
               Name nm \<Rightarrow>
                 (case readObject dec n b1 of
                    None \<Rightarrow> None
                  | Some ((res, err), b2) \<Rightarrow>
                      (case err of
                         Some e \<Rightarrow> Some (Inl Null, b2)
                       | None \<Rightarrow> readDict_loop dec n (x(nm \<mapsto> res)) b2))
             | _ \<Rightarrow> readDict_loop dec n x b1))"



subsection \<open>Notions used in the statements\<close>

text \<open>
  The parse context of a buffer: the flags, the key, the cipher mode and the
  active object identity.
\<close>

definition config :: "buffer \<Rightarrow> bool \<times> bool \<times> bool \<times> string option \<times> bool \<times> objptr" where
  "config b = (allowEOF b, allowObjptr b, allowStream b, key b, useAES b, objptr b)"

text \<open>The digits \<^verbatim>\<open>'0'\<close> to \<^verbatim>\<open>'7'\<close>, as the \<^verbatim>\<open>case\<close> list of \<^verbatim>\<open>readLiteralString\<close> names them.\<close>

abbreviation octal_digit :: "char \<Rightarrow> bool" where
  "octal_digit c \<equiv> ord CHR ''0'' \<le> ord c \<and> ord c \<le> ord CHR ''7''"

text \<open>
  A buffer at its end: nothing pushed back, nothing left to read in the buffered
  bytes, nothing left in the reader.
\<close>

definition at_end :: "buffer \<Rightarrow> bool" where
  "at_end b \<longleftrightarrow> unread b = [] \<and> rdr b = [] \<and> length (buf b) \<le> pos b"

text \<open>A stand-in for the decryption hook in the concrete examples: it reverses the string.\<close>

definition sample_decrypt :: decrypt where
  "sample_decrypt k aes ptr s = rev s"

section \<open>Properties\<close>

subsection \<open>The tokenizer leaves the parse context alone\<close>

text \<open>
  The flags, the key and the active object identity are set by the caller and
  by \<^verbatim>\<open>readObject\<close>; no function of the byte source or the tokenizer writes them.
\<close>

lemma readByte_config: "readByte b = (c, err, b') \<Longrightarrow> config b' = config b"
  by (auto simp: readByte_def reload_def config_def split: if_splits prod.splits)

lemma unreadByte_config [simp]: "config (unreadByte b) = config b"
  by (simp add: unreadByte_def config_def)

lemma unreadToken_config [simp]: "config (unreadToken t b) = config b"
  by (simp add: unreadToken_def config_def)

lemma readByte_facts:
  "readByte b = (c, err, b1) \<Longrightarrow>
     config b1 = config b \<and> remaining b1 \<le> remaining b \<and>
     (err = None \<longrightarrow> remaining b1 < remaining b)"
  using readByte_config [of b c err b1] readByte_remaining_le [of b c err b1]
    readByte_ok_remaining [of b c b1] by auto

lemma readKeyword_loop_config:
  "readKeyword_loop tmp b = (t, b') \<Longrightarrow> config b' = config b"
proof (induction "remaining b" arbitrary: tmp b t b' rule: less_induct)
  case less
  note IH = less.hyps [rotated]
  from less.prems show ?case
    by (subst (asm) readKeyword_loop.simps)
      (auto split: prod.splits option.splits if_splits dest!: readByte_facts IH)
qed

lemma readName_loop_config:
  "readName_loop tmp b = (t, b') \<Longrightarrow> config b' = config b"
proof (induction "remaining b" arbitrary: tmp b t b' rule: less_induct)
  case less
  note IH = less.hyps [rotated]
  from less.prems show ?case
    by (subst (asm) readName_loop.simps)
      (auto split: prod.splits option.splits if_splits dest!: readByte_facts IH)
qed

lemma readHexString_Loop2_facts:
  "readHexString_Loop2 b = (res, b') \<Longrightarrow> config b' = config b \<and> remaining b' \<le> remaining b"
proof (induction "remaining b" arbitrary: b res b' rule: less_induct)
  case less
  note IH = less.hyps [rotated]
  from less.prems show ?case
    by (subst (asm) readHexString_Loop2.simps)
      (auto split: prod.splits option.splits if_splits dest!: readByte_facts IH)
qed

lemma readHexString_loop_config:
  "readHexString_loop tmp b = (t, b') \<Longrightarrow> config b' = config b"
proof (induction "remaining b" arbitrary: tmp b t b' rule: less_induct)
  case less
  note IH = less.hyps [rotated]
  from less.prems show ?case
    by (subst (asm) readHexString_loop.simps)
      (auto split: prod.splits option.splits if_splits sum.splits
        dest!: readByte_facts readHexString_Loop2_facts IH)
qed

lemma readLiteralString_octal_facts:
  "readLiteralString_octal x i b = (res, b') \<Longrightarrow>
     config b' = config b \<and> remaining b' \<le> remaining b"
proof (induction x i b arbitrary: res b' rule: readLiteralString_octal.induct)
  case (1 x b)
  then show ?case by simp
next
  case (2 x i b)
  obtain c err b1 where r: "readByte b = (c, err, b1)"
    by (cases "readByte b") auto
  note f = readByte_facts [OF r]
  show ?case
  proof (cases err)
    case (Some e)
    with r "2.prems" f show ?thesis by auto
  next
    case None
    show ?thesis
    proof (cases "ord c < ord CHR ''0'' \<or> ord c > ord CHR ''7''")
      case True
      with r None "2.prems" have "b' = unreadByte b1" by auto
      with f readByte_unread_remaining [OF r [unfolded None]] show ?thesis by simp
    next
      case False
      with r None "2.prems"
      have "readLiteralString_octal (x * 8 + (ord c - ord CHR ''0'')) i b1 = (res, b')"
        by auto
      from "2.IH" [OF r [symmetric] refl None False this] f
      show ?thesis by simp
    qed
  qed
qed

lemma readByte_unread_facts:
  "readByte b = (c, None, b1) \<Longrightarrow>
     config (unreadByte b1) = config b \<and> remaining (unreadByte b1) \<le> remaining b"
  using readByte_config [of b c None b1] readByte_unread_remaining [of b c b1] by simp

lemma readLiteralString_loop_config:
  "readLiteralString_loop tmp depth b = (t, b') \<Longrightarrow> config b' = config b"
proof (induction "remaining b" arbitrary: tmp depth b t b' rule: less_induct)
  case less
  have IH: "config b' = config b"
    if "remaining ba < remaining b" "config ba = config b"
      "readLiteralString_loop tmp' d' ba = (t, b')" for ba tmp' d'
    using less.hyps [OF that(1) that(3)] that(2) by simp
  note p = less.prems [unfolded readLiteralString_loop.simps [of tmp depth b]]
  show ?case
  proof (cases "eof b")
    case True
    with p show ?thesis by simp
  next
    case False
    obtain c err b1 where r1: "readByte b = (c, err, b1)"
      by (cases "readByte b") auto
    note f1 = readByte_facts [OF r1]
    show ?thesis
    proof (cases err)
      case (Some e)
      with p False r1 f1 show ?thesis by simp
    next
      case None
      with f1 have ok1: "remaining b1 < remaining b" "config b1 = config b"
        by auto
      show ?thesis
      proof (cases "c = BSL")
        case nb: False
        with p \<open>\<not> eof b\<close> r1 None
        have "b' = b1 \<or> (\<exists>tmp' d'. readLiteralString_loop tmp' d' b1 = (t, b'))"
          by (auto split: if_splits)
        with IH ok1 show ?thesis by auto
      next
        case True
        obtain c2 err2 b2 where r2: "readByte b1 = (c2, err2, b2)"
          by (cases "readByte b1") auto
        from readByte_facts [OF r2] ok1
        have ok2: "remaining b2 < remaining b" "config b2 = config b"
          by auto
        from p \<open>\<not> eof b\<close> r1 None True r2
        have q: "(if c2 = CHR ''n'' then readLiteralString_loop (tmp @ [CHR 0x0A]) depth b2
                 else if c2 = CHR ''r'' then readLiteralString_loop (tmp @ [CHR 0x0D]) depth b2
                 else if c2 = CHR ''b'' then readLiteralString_loop (tmp @ [CHR 0x08]) depth b2
                 else if c2 = CHR ''t'' then readLiteralString_loop (tmp @ [CHR 0x09]) depth b2
                 else if c2 = CHR ''f'' then readLiteralString_loop (tmp @ [CHR 0x0C]) depth b2
                 else if c2 = CHR ''('' \<or> c2 = CHR '')'' \<or> c2 = BSL then
                   readLiteralString_loop (tmp @ [c2]) depth b2
                 else if c2 = CR then
                   (case readByte b2 of
                      (d, err3, b3) \<Rightarrow>
                        (case err3 of
                           Some e \<Rightarrow> (Err e, b3)
                         | None \<Rightarrow>
                             readLiteralString_loop tmp depth
                               (if d \<noteq> LF then unreadByte b3 else b3)))
                 else if c2 = LF then readLiteralString_loop tmp depth b2
                 else if ord CHR ''0'' \<le> ord c2 \<and> ord c2 \<le> ord CHR ''7'' then
                   (case readLiteralString_octal (ord c2 - ord CHR ''0'') 2 b2 of
                      (Inl e, b3) \<Rightarrow> (Err e, b3)
                    | (Inr x, b3) \<Rightarrow> readLiteralString_loop (tmp @ [char_of x]) depth b3)
                 else
                   (case err2 of
                      Some e \<Rightarrow> (Err e, b2)
                    | None \<Rightarrow> readLiteralString_loop (tmp @ [BSL, c2]) depth b2)) = (t, b')"
          by (simp add: BSL_def)
        obtain d err3 b3 where r3: "readByte b2 = (d, err3, b3)"
          by (cases "readByte b2") auto
        obtain res b4 where r4: "readLiteralString_octal (ord c2 - ord CHR ''0'') 2 b2 = (res, b4)"
          by (cases "readLiteralString_octal (ord c2 - ord CHR ''0'') 2 b2") auto
        from q r3 r4
        consider (simple) tmp' where "readLiteralString_loop tmp' depth b2 = (t, b')"
          | (stop) "b' = b2"
          | (cr_err) "b' = b3"
          | (cr) "err3 = None"
              "readLiteralString_loop tmp depth (if d \<noteq> LF then unreadByte b3 else b3) = (t, b')"
          | (oct_err) "b' = b4"
          | (oct) tmp' where "readLiteralString_loop tmp' depth b4 = (t, b')"
          by (auto split: if_splits option.splits sum.splits)
        then show ?thesis
        proof cases
          case simple
          with IH ok2 show ?thesis by auto
        next
          case stop
          with ok2 show ?thesis by simp
        next
          case cr_err
          with readByte_facts [OF r3] ok2 show ?thesis by simp
        next
          case cr
          from readByte_unread_facts [OF r3 [unfolded cr(1)]] readByte_facts [OF r3] ok2 cr(1)
          have "remaining (if d \<noteq> LF then unreadByte b3 else b3) < remaining b"
            "config (if d \<noteq> LF then unreadByte b3 else b3) = config b"
            by auto
          from IH [OF this cr(2)] show ?thesis .
        next
          case oct_err
          with readLiteralString_octal_facts [OF r4] ok2 show ?thesis by simp
        next
          case oct
          from readLiteralString_octal_facts [OF r4] ok2
          have "remaining b4 < remaining b" "config b4 = config b" by auto
          from IH [OF this oct] show ?thesis .
        qed
      qed
    qed
  qed
qed

lemma readToken_comment_facts:
  "readToken_comment c b = (res, b') \<Longrightarrow> config b' = config b \<and> remaining b' \<le> remaining b"
proof (induction "remaining b" arbitrary: c b res b' rule: less_induct)
  case less
  note IH = less.hyps [rotated]
  from less.prems show ?case
    by (subst (asm) readToken_comment.simps)
      (auto split: prod.splits option.splits if_splits dest!: readByte_facts IH)
qed

lemma readToken_skip_config:
  "readToken_skip c b = (res, b') \<Longrightarrow> config b' = config b"
proof (induction "remaining b" arbitrary: c b res b' rule: less_induct)
  case less
  have IH: "config b' = config b"
    if "remaining ba < remaining b" "config ba = config b" "readToken_skip c' ba = (res, b')"
    for ba c'
    using less.hyps [OF that(1) that(3)] that(2) by simp
  note p = less.prems [unfolded readToken_skip.simps [of c b]]
  show ?case
  proof (cases "isSpace c")
    case True
    obtain c1 err b1 where r1: "readByte b = (c1, err, b1)"
      by (cases "readByte b") auto
    note f1 = readByte_facts [OF r1]
    from p True r1
    consider "b' = b" | "b' = b1" | "err = None" "readToken_skip c1 b1 = (res, b')"
      by (auto split: if_splits option.splits)
    then show ?thesis
    proof cases
      case 3
      with IH [of b1 c1] f1 show ?thesis by auto
    qed (use f1 in auto)
  next
    case False
    show ?thesis
    proof (cases "c = CHR ''%''")
      case nc: False
      with p False show ?thesis by simp
    next
      case True
      obtain r b1 where r1: "readToken_comment c b = (r, b1)"
        by (cases "readToken_comment c b") auto
      note f1 = readToken_comment_facts [OF r1]
      show ?thesis
      proof (cases r)
        case (Inl e)
        with p False True r1 f1 show ?thesis by simp
      next
        case (Inr c1)
        with p False True r1 have q: "readToken_skip c1 b1 = (res, b')" by simp
        from readToken_comment_dec [of c1 b1 c b] r1 Inr True
        have "remaining b1 < remaining b" by (simp add: CR_def LF_def)
        from IH [OF this _ q] f1 show ?thesis by simp
      qed
    qed
  qed
qed

lemma readToken_default_config:
  "readToken_default c b = (t, b') \<Longrightarrow> config b' = config b"
  by (auto simp: readToken_default_def readKeyword_def split: if_splits
      dest!: readKeyword_loop_config)

lemma readToken_switch_config:
  "readToken_switch c b = (t, b') \<Longrightarrow> config b' = config b"
  by (auto simp: readToken_switch_def readHexString_def readLiteralString_def readName_def
      split: if_splits prod.splits option.splits
      dest!: readByte_config readHexString_loop_config readLiteralString_loop_config
        readName_loop_config readToken_default_config)

lemma readToken_config: "readToken b = (t, b') \<Longrightarrow> config b' = config b"
proof (cases "length (unread b) > 0")
  case True
  assume "readToken b = (t, b')"
  with True show ?thesis by (auto simp: readToken_def config_def)
next
  case False
  assume "readToken b = (t, b')"
  with False show ?thesis
    by (auto simp: readToken_def split: prod.splits option.splits sum.splits
        dest!: readByte_config readToken_skip_config readToken_switch_config)
qed

lemma readToken_fields:
  assumes "readToken b = (t, b')"
  shows "allowEOF b' = allowEOF b" "allowObjptr b' = allowObjptr b"
    "allowStream b' = allowStream b" "key b' = key b" "useAES b' = useAES b"
    "objptr b' = objptr b"
  using readToken_config [OF assms] by (simp_all add: config_def)

lemma readByte_fields:
  assumes "readByte b = (c, err, b')"
  shows "allowEOF b' = allowEOF b" "allowObjptr b' = allowObjptr b"
    "allowStream b' = allowStream b" "key b' = key b" "useAES b' = useAES b"
    "objptr b' = objptr b"
  using readByte_config [OF assms] by (simp_all add: config_def)

text \<open>A token pushed back is the next token read, and the buffer is as before the push.\<close>

lemma readToken_unreadToken [simp]: "readToken (unreadToken t b) = (t, b)"
  by (simp add: readToken_def unreadToken_def)



subsection \<open>Fuel\<close>

text \<open>
  The calls of \<^verbatim>\<open>readObject\<close> that make no nested call (anything but a dictionary, an
  array or an object definition) do not look at the fuel left.
\<close>

lemma readObject_other:
  assumes t: "readToken b = (tok, b1)"
    and nd: "tok \<noteq> Keyword ''<<''" and na: "tok \<noteq> Keyword ''[''"
    and no: "\<not> (\<exists>t1 t2 b2 b3. tok = Int64 t1 \<and> allowObjptr b1 \<and> fits_uint32 t1 \<and>
               readToken b1 = (Int64 t2, b2) \<and> fits_uint16 t2 \<and>
               readToken b2 = (Keyword ''obj'', b3))"
  shows "readObject dec (Suc m) b = readObject dec (Suc k) b"
proof (cases "\<exists>kw. tok = Keyword kw")
  case True
  with t nd na show ?thesis by auto
next
  case nk: False
  show ?thesis
  proof (cases "\<exists>t1. tok = Int64 t1 \<and> allowObjptr b1 \<and> fits_uint32 t1")
    case False
    with t nk show ?thesis
      by (cases tok) (auto simp: readObject_decrypt_def)
  next
    case True
    then obtain t1 where i: "tok = Int64 t1" "allowObjptr b1" "fits_uint32 t1" by blast
    obtain tok2 b2 where t2: "readToken b1 = (tok2, b2)" by (cases "readToken b1") auto
    show ?thesis
    proof (cases "\<exists>t2. tok2 = Int64 t2 \<and> fits_uint16 t2")
      case False
      with t i t2 show ?thesis
        by (cases tok2) (auto simp: readObject_decrypt_def)
    next
      case True
      then obtain t2' where j: "tok2 = Int64 t2'" "fits_uint16 t2'" by blast
      obtain tok3 b3 where t3: "readToken b2 = (tok3, b3)" by (cases "readToken b2") auto
      from no i j t2 t3 have "tok3 \<noteq> Keyword ''obj''" by auto
      with t i t2 j t3 show ?thesis
        by (simp add: readObject_decrypt_def)
    qed
  qed
qed


text \<open>One more unit of fuel does not change a result, for each of the five functions.\<close>

lemma fuel_Suc:
  "(\<forall>b r. readObject dec n b = Some r \<longrightarrow> readObject dec (Suc n) b = Some r) \<and>
   (\<forall>b r. readArray dec n b = Some r \<longrightarrow> readArray dec (Suc n) b = Some r) \<and>
   (\<forall>b r. readDict dec n b = Some r \<longrightarrow> readDict dec (Suc n) b = Some r) \<and>
   (\<forall>x b r. readArray_loop dec n x b = Some r \<longrightarrow> readArray_loop dec (Suc n) x b = Some r) \<and>
   (\<forall>x b r. readDict_loop dec n x b = Some r \<longrightarrow> readDict_loop dec (Suc n) x b = Some r)"
proof (induction n)
  case 0
  show ?case by simp
next
  case (Suc n)
  then have IH:
    "\<And>b r. readObject dec n b = Some r \<Longrightarrow> readObject dec (Suc n) b = Some r"
    "\<And>b r. readArray dec n b = Some r \<Longrightarrow> readArray dec (Suc n) b = Some r"
    "\<And>b r. readDict dec n b = Some r \<Longrightarrow> readDict dec (Suc n) b = Some r"
    "\<And>x b r. readArray_loop dec n x b = Some r \<Longrightarrow> readArray_loop dec (Suc n) x b = Some r"
    "\<And>x b r. readDict_loop dec n x b = Some r \<Longrightarrow> readDict_loop dec (Suc n) x b = Some r"
    by blast+
  note unf = readObject.simps(2) [of dec "Suc n"] readObject.simps(2) [of dec n]
    readArray_loop.simps(2) [of dec "Suc n"] readArray_loop.simps(2) [of dec n]
    readDict_loop.simps(2) [of dec "Suc n"] readDict_loop.simps(2) [of dec n]
  have a: "readArray dec (Suc (Suc n)) b = Some r" if "readArray dec (Suc n) b = Some r" for b r
    using that IH(4) by simp
  have d: "readDict dec (Suc (Suc n)) b = Some r" if "readDict dec (Suc n) b = Some r" for b r
    using that IH(5) [of Map.empty b]
    by (cases "readDict_loop dec n Map.empty b") (auto simp del: readDict_loop.simps)
  have al: "readArray_loop dec (Suc (Suc n)) x b = Some r"
    if p: "readArray_loop dec (Suc n) x b = Some r" for x b r
  proof -
    obtain tok b1 where t: "readToken b = (tok, b1)" by (cases "readToken b") auto
    show ?thesis
    proof (cases "tok = Null \<or> tok = Keyword '']''")
      case True
      with p t show ?thesis by (simp del: readObject.simps)
    next
      case False
      show ?thesis
      proof (cases "readObject dec n (unreadToken tok b1)")
        case None
        with p t False show ?thesis by (simp del: readObject.simps)
      next
        case (Some q)
        obtain res err b2 where q: "q = ((res, err), b2)" by (cases q) auto
        from IH(1) [OF Some] have s: "readObject dec (Suc n) (unreadToken tok b1) = Some q" .
        show ?thesis
        proof (cases err)
          case None
          with p t False Some q have "readArray_loop dec n (x @ [res]) b2 = Some r"
            by (simp del: readObject.simps)
          from IH(4) [OF this] t False s q None show ?thesis
            by (simp add: unf del: readObject.simps readArray_loop.simps)
        next
          case (Some e)
          with p t False \<open>readObject dec n (unreadToken tok b1) = Some q\<close> q s show ?thesis
            by (simp add: unf del: readObject.simps readArray_loop.simps)
        qed
      qed
    qed
  qed
  have dl: "readDict_loop dec (Suc (Suc n)) x b = Some r"
    if p: "readDict_loop dec (Suc n) x b = Some r" for x b r
  proof -
    obtain tok b1 where t: "readToken b = (tok, b1)" by (cases "readToken b") auto
    show ?thesis
    proof (cases "tok = Null \<or> tok = Keyword ''>>''")
      case True
      with p t show ?thesis by (simp del: readObject.simps)
    next
      case False
      show ?thesis
      proof (cases "\<exists>nm. tok = Name nm")
        case nn: False
        with p t False have "readDict_loop dec n x b1 = Some r"
          by (cases tok) (simp_all del: readObject.simps)
        from IH(5) [OF this] nn t False show ?thesis
          by (cases tok) (simp_all add: unf del: readObject.simps readDict_loop.simps)
      next
        case True
        then obtain nm where nm: "tok = Name nm" by blast
        show ?thesis
        proof (cases "readObject dec n b1")
          case None
          with p t nm show ?thesis by (simp del: readObject.simps)
        next
          case (Some q)
          obtain res err b2 where q: "q = ((res, err), b2)" by (cases q) auto
          from IH(1) [OF Some] have s: "readObject dec (Suc n) b1 = Some q" .
          show ?thesis
          proof (cases err)
            case None
            with p t nm Some q have "readDict_loop dec n (x(nm \<mapsto> res)) b2 = Some r"
              by (simp del: readObject.simps)
            from IH(5) [OF this] t nm s q None show ?thesis
              by (simp add: unf del: readObject.simps readDict_loop.simps)
          next
            case (Some e)
            with p t nm \<open>readObject dec n b1 = Some q\<close> q s show ?thesis
              by (simp add: unf del: readObject.simps readDict_loop.simps)
          qed
        qed
      qed
    qed
  qed
  have o: "readObject dec (Suc (Suc n)) b = Some r" if p: "readObject dec (Suc n) b = Some r" for b r
  proof -
    obtain tok b1 where t: "readToken b = (tok, b1)" by (cases "readToken b") auto
    show ?thesis
    proof (cases "tok = Keyword ''<<''")
      case True
      show ?thesis
      proof (cases "readDict dec n b1")
        case None
        with p t True show ?thesis by (simp del: readDict.simps)
      next
        case (Some q)
        from IH(3) [OF Some] p t True Some show ?thesis
          by (cases q) (simp add: unf del: readObject.simps readDict.simps)
      qed
    next
      case nd: False
      show ?thesis
      proof (cases "tok = Keyword ''[''")
        case True
        show ?thesis
        proof (cases "readArray dec n b1")
          case None
          with p t True show ?thesis by (simp del: readArray.simps)
        next
          case (Some q)
          from IH(2) [OF Some] p t True Some show ?thesis
            by (cases q) (simp add: unf del: readObject.simps readArray.simps)
        qed
      next
        case na: False
        show ?thesis
        proof (cases "\<exists>t1 t2 b2 b3. tok = Int64 t1 \<and> allowObjptr b1 \<and> fits_uint32 t1 \<and>
               readToken b1 = (Int64 t2, b2) \<and> fits_uint16 t2 \<and>
               readToken b2 = (Keyword ''obj'', b3)")
          case False
          from readObject_other [OF t nd na False, of dec "Suc n" n] p show ?thesis by simp
        next
          case True
          then obtain t1 t2 b2 b3 where c: "tok = Int64 t1" "allowObjptr b1" "fits_uint32 t1"
            "readToken b1 = (Int64 t2, b2)" "fits_uint16 t2" "readToken b2 = (Keyword ''obj'', b3)"
            by blast
          show ?thesis
          proof (cases "readObject dec n (b3\<lparr>objptr := mk_objptr t1 t2\<rparr>)")
            case None
            with p t c show ?thesis
              by (simp add: unf readObject_decrypt_def del: readObject.simps)
          next
            case (Some q)
            obtain obj err b4 where q: "q = ((obj, err), b4)" by (cases q) auto
            from IH(1) [OF Some] p t c Some q show ?thesis
              by (simp add: unf readObject_decrypt_def del: readObject.simps)
          qed
        qed
      qed
    qed
  qed
  from a d al dl o show ?case by blast
qed


text \<open>A result of \<^verbatim>\<open>readObject\<close> is the result for every larger amount of fuel.\<close>

lemma readObject_fuel_mono:
  assumes "readObject dec n b = Some r" and "n \<le> m"
  shows "readObject dec m b = Some r"
  using assms(2,1)
proof (induction rule: dec_induct)
  case base
  then show ?case .
next
  case (step k)
  with fuel_Suc [of dec k] show ?case by blast
qed

subsection \<open>Evaluation on concrete inputs\<close>

text \<open>
  The defining equations, for evaluating the tokenizer and the object reader
  on a concrete buffer.
\<close>

lemmas tok_simps =
  readToken_def readByte_def reload_def Read_def bufcap_def newBuffer_def
  readToken_skip.simps readToken_comment.simps readToken_switch_def readToken_default_def
  readKeyword_def readKeyword_loop.simps readKeyword_classify_def isInteger_def isReal_def
  dropSign_def ParseInt_def isSpace_def isDelim_def unreadByte_def LF_def CR_def BSL_def
  readName_def readName_loop.simps readHexString_def readHexString_loop.simps
  readHexString_Loop2.simps readLiteralString_def readLiteralString_loop.simps
  unhex_def char_of_eq_iff unexpected_delimiter_def

lemmas obj_simps =
  tok_simps readObject_decrypt_def fits_uint32_def fits_uint16_def mk_objptr_def
  unreadToken_def readDict_stream_def readOffset_def

subsection \<open>Indirect references\<close>

lemma fits_uint32_id: "fits_uint32 t \<Longrightarrow> uint (word_of_int t :: 32 word) = t"
  by (simp add: fits_uint32_def uint_word_of_int take_bit_eq_mod)

lemma fits_uint16_gen: "fits_uint16 t \<Longrightarrow> uint (word_of_int t :: 16 word) = t"
  by (simp add: fits_uint16_def uint_word_of_int take_bit_eq_mod)

text \<open>
  C1. Whenever the next three tokens are an Integer \<open>t1\<close> that fits
  \<^verbatim>\<open>uint32\<close>, an Integer \<open>t2\<close> that fits \<^verbatim>\<open>uint16\<close> and the Keyword \<^verbatim>\<open>R\<close>, \<^verbatim>\<open>readObject\<close>
  with \<^verbatim>\<open>allowObjptr\<close> set returns the indirect reference with \<open>id = t1\<close> and
  \<open>generation = t2\<close> and no error, and leaves the buffer as it is after the third
  token.
\<close>

theorem readObject_indirect_reference:
  assumes "allowObjptr b"
    and "readToken b = (Int64 t1, b1)" and "fits_uint32 t1"
    and "readToken b1 = (Int64 t2, b2)" and "fits_uint16 t2"
    and "readToken b2 = (Keyword ''R'', b3)"
  shows "readObject dec (Suc n) b = Some ((Objptr (mk_objptr t1 t2), None), b3) \<and>
         uint (obj_id (mk_objptr t1 t2)) = t1 \<and> uint (gen (mk_objptr t1 t2)) = t2"
proof -
  from assms(1) readToken_fields(2) [OF assms(2)] have "allowObjptr b1" by simp
  with assms(2-6) have "readObject dec (Suc n) b = Some ((Objptr (mk_objptr t1 t2), None), b3)"
    by (simp add: readObject_decrypt_def)
  with fits_uint32_id [OF assms(3)] fits_uint16_gen [OF assms(5)] show ?thesis
    by (simp add: mk_objptr_def)
qed

text \<open>
  The three tokens Integer 1, Integer 0 and Keyword \<^verbatim>\<open>R\<close>, once waiting on the
  pushback stack with nothing behind them and once read from the bytes \<^verbatim>\<open>1 0 R\<close>
  with a line feed ending the keyword: the reference (1, 0) is returned.
\<close>

theorem readObject_indirect_reference_witness:
  "map_option fst
     (readObject sample_decrypt (Suc 0)
        ((newBuffer [] 0)\<lparr>unread := [Keyword ''R'', Int64 0, Int64 1]\<rparr>)) =
     Some (Objptr \<lparr>obj_id = 1, gen = 0\<rparr>, None) \<and>
   map_option fst (readObject sample_decrypt (Suc 0) (newBuffer ''1 0 R\<newline>'' 0)) =
     Some (Objptr \<lparr>obj_id = 1, gen = 0\<rparr>, None)"
proof -
  have h3: "fits_uint32 1" by (simp add: fits_uint32_def)
  have h5: "fits_uint16 0" by (simp add: fits_uint16_def)
  let ?s = "(newBuffer [] 0)\<lparr>unread := [Keyword ''R'', Int64 0, Int64 1]\<rparr>"
  let ?sp = "snd (readToken ?s)"
  let ?sq = "snd (readToken ?sp)"
  let ?sr = "snd (readToken ?sq)"
  have s1: "allowObjptr ?s" by (simp add: newBuffer_def)
  have s2: "readToken ?s = (Int64 1, ?sp)" by (simp add: readToken_def newBuffer_def)
  have s4: "readToken ?sp = (Int64 0, ?sq)" by (simp add: readToken_def newBuffer_def)
  have s6: "readToken ?sq = (Keyword ''R'', ?sr)" by (simp add: readToken_def newBuffer_def)
  let ?b = "newBuffer ''1 0 R\<newline>'' 0"
  let ?bp = "snd (readToken ?b)"
  let ?bq = "snd (readToken ?bp)"
  let ?br = "snd (readToken ?bq)"
  have h1: "allowObjptr ?b" by (simp add: newBuffer_def)
  have h2: "readToken ?b = (Int64 1, ?bp)" by (simp add: tok_simps)
  have h4: "readToken ?bp = (Int64 0, ?bq)" by (simp add: tok_simps)
  have h6: "readToken ?bq = (Keyword ''R'', ?br)" by (simp add: tok_simps)
  from readObject_indirect_reference [OF s1 s2 h3 s4 h5 s6, of sample_decrypt 0]
    readObject_indirect_reference [OF h1 h2 h3 h4 h5 h6, of sample_decrypt 0]
  show ?thesis by (simp add: mk_objptr_def del: readObject.simps)
qed

text \<open>
  Outside the condition of the theorem: when the bytes \<^verbatim>\<open>1 0 R\<close> are the last of the
  input, \<^verbatim>\<open>readKeyword\<close> meets the end of the input before white space or a
  delimiter ends the keyword, and the third token is the read error, not the
  Keyword \<^verbatim>\<open>R\<close>. \<^verbatim>\<open>readObject\<close> then returns the Integer 1 with the third and the
  second token pushed back.
\<close>

lemma readObject_keyword_cut_by_end_of_input:
  "readObject sample_decrypt (Suc 0) (newBuffer ''1 0 R'' 0) =
     Some ((Int64 1, None),
       (newBuffer [] 5)\<lparr>unread := [Err EOF, Int64 0]\<rparr>)"
  by (simp add: obj_simps)

subsection \<open>Pushback fidelity\<close>

lemma unreadToken_unread: "unread (unreadToken t b) = unread b @ [t]"
  by (simp add: unreadToken_def)

text \<open>
  C2. In the lookahead of \<^verbatim>\<open>readObject\<close> after a first Integer that fits \<^verbatim>\<open>uint32\<close>:
  when the second token is not an Integer that fits \<^verbatim>\<open>uint16\<close>, exactly the second
  token is pushed back, the first Integer is returned as a plain scalar and the
  next \<^verbatim>\<open>readToken\<close> returns the second token; when the third token is neither
  \<^verbatim>\<open>R\<close> nor \<^verbatim>\<open>obj\<close>, the third token is pushed back first and the second after it,
  and the next two calls of \<^verbatim>\<open>readToken\<close> return the second and then the third token,
  ending in the buffer as it was after the third token.
\<close>

theorem readObject_pushback:
  assumes "allowObjptr b"
    and "readToken b = (Int64 t1, b1)" and "fits_uint32 t1"
    and "readToken b1 = (tok2, b2)"
    and "readToken b2 = (tok3, b3)"
  shows "((\<forall>t2. tok2 = Int64 t2 \<longrightarrow> \<not> fits_uint16 t2) \<longrightarrow>
            readObject dec (Suc n) b = Some ((Int64 t1, None), unreadToken tok2 b2) \<and>
            unread (unreadToken tok2 b2) = unread b2 @ [tok2] \<and>
            readToken (unreadToken tok2 b2) = (tok2, b2)) \<and>
         ((\<exists>t2. tok2 = Int64 t2 \<and> fits_uint16 t2) \<and>
            tok3 \<noteq> Keyword ''R'' \<and> tok3 \<noteq> Keyword ''obj'' \<longrightarrow>
            readObject dec (Suc n) b =
              Some ((Int64 t1, None), unreadToken tok2 (unreadToken tok3 b3)) \<and>
            unread (unreadToken tok2 (unreadToken tok3 b3)) = unread b3 @ [tok3, tok2] \<and>
            readToken (unreadToken tok2 (unreadToken tok3 b3)) = (tok2, unreadToken tok3 b3) \<and>
            readToken (unreadToken tok3 b3) = (tok3, b3))"
proof -
  from assms(1) readToken_fields(2) [OF assms(2)] have a: "allowObjptr b1" by simp
  have "readObject dec (Suc n) b = Some ((Int64 t1, None), unreadToken tok2 b2)"
    if "\<forall>t2. tok2 = Int64 t2 \<longrightarrow> \<not> fits_uint16 t2"
    using that a assms(2-4) by (cases tok2) (simp_all add: readObject_decrypt_def)
  moreover
  have "readObject dec (Suc n) b =
          Some ((Int64 t1, None), unreadToken tok2 (unreadToken tok3 b3))"
    if "\<exists>t2. tok2 = Int64 t2 \<and> fits_uint16 t2" "tok3 \<noteq> Keyword ''R''" "tok3 \<noteq> Keyword ''obj''"
    using that a assms(2-5) by (auto simp: readObject_decrypt_def)
  ultimately show ?thesis
    by (simp add: unreadToken_unread del: readObject.simps)
qed


text \<open>
  The inputs \<^verbatim>\<open>5 /X\<close> (the second token is a Name) and \<^verbatim>\<open>5 6 /Y\<close> (the third token is
  a Name): the Integer 5 is returned, and the tokens read ahead come back in
  their input order.
\<close>

theorem readObject_pushback_witness:
  "(let r = readObject sample_decrypt (Suc 0) (newBuffer ''5 /X '' 0)
    in map_option fst r = Some (Int64 5, None) \<and>
       fst (readToken (snd (the r))) = Name ''X'') \<and>
   (let r = readObject sample_decrypt (Suc 0) (newBuffer ''5 6 /Y '' 0);
        r2 = readToken (snd (the r))
    in map_option fst r = Some (Int64 5, None) \<and>
       fst r2 = Int64 6 \<and> fst (readToken (snd r2)) = Name ''Y'')"
proof -
  let ?a = "newBuffer ''5 /X '' 0"
  let ?a1 = "snd (readToken ?a)"
  let ?a2 = "snd (readToken ?a1)"
  let ?a3 = "snd (readToken ?a2)"
  have a1: "allowObjptr ?a" by (simp add: newBuffer_def)
  have a2: "readToken ?a = (Int64 5, ?a1)" by (simp add: tok_simps)
  have a3: "fits_uint32 5" by (simp add: fits_uint32_def)
  have a4: "readToken ?a1 = (Name ''X'', ?a2)" by (simp add: tok_simps)
  have a5: "readToken ?a2 = (fst (readToken ?a2), ?a3)" by simp
  let ?c = "newBuffer ''5 6 /Y '' 0"
  let ?c1 = "snd (readToken ?c)"
  let ?c2 = "snd (readToken ?c1)"
  let ?c3 = "snd (readToken ?c2)"
  have c1: "allowObjptr ?c" by (simp add: newBuffer_def)
  have c2: "readToken ?c = (Int64 5, ?c1)" by (simp add: tok_simps)
  have c4: "readToken ?c1 = (Int64 6, ?c2)" by (simp add: tok_simps)
  have c5: "readToken ?c2 = (Name ''Y'', ?c3)" by (simp add: tok_simps)
  have c6: "fits_uint16 6" by (simp add: fits_uint16_def)
  from readObject_pushback [OF a1 a2 a3 a4 a5, of sample_decrypt 0]
    readObject_pushback [OF c1 c2 a3 c4 c5, of sample_decrypt 0] c6
  show ?thesis by (simp add: Let_def del: readObject.simps)
qed

subsection \<open>Decryption of strings\<close>

text \<open>
  C9. A string token read by \<^verbatim>\<open>readObject\<close> is passed through the decryption hook
  exactly when a key is configured and the active object identity has a nonzero
  id; with no key, or with object id 0, the bytes are returned unchanged. In both
  cases the string is the object returned, with no error.
\<close>

theorem readObject_string_decrypt:
  assumes "readToken b = (Str s, b1)"
  shows "readObject dec (Suc n) b =
           Some ((Str (if key b \<noteq> None \<and> obj_id (objptr b) \<noteq> 0
                       then dec (the (key b)) (useAES b) (objptr b) s
                       else s), None), b1)"
  using assms readToken_fields [OF assms]
  by (simp add: readObject_decrypt_def)

text \<open>
  The literal string \<^verbatim>\<open>(abc)\<close>: with a key and the active object (7, 0) the hook is
  applied; with the same key and the object id 0, and with no key, it is not.
\<close>

theorem readObject_string_decrypt_witness:
  "map_option fst
     (readObject sample_decrypt (Suc 0)
        ((newBuffer ''(abc) '' 0)\<lparr>key := Some ''k'', objptr := \<lparr>obj_id = 7, gen = 0\<rparr>\<rparr>)) =
     Some (Str ''cba'', None) \<and>
   map_option fst
     (readObject sample_decrypt (Suc 0)
        ((newBuffer ''(abc) '' 0)\<lparr>key := Some ''k'', objptr := \<lparr>obj_id = 0, gen = 3\<rparr>\<rparr>)) =
     Some (Str ''abc'', None) \<and>
   map_option fst
     (readObject sample_decrypt (Suc 0)
        ((newBuffer ''(abc) '' 0)\<lparr>objptr := \<lparr>obj_id = 7, gen = 0\<rparr>\<rparr>)) =
     Some (Str ''abc'', None)"
proof -
  let ?a = "(newBuffer ''(abc) '' 0)\<lparr>key := Some ''k'', objptr := \<lparr>obj_id = 7, gen = 0\<rparr>\<rparr>"
  let ?c = "(newBuffer ''(abc) '' 0)\<lparr>key := Some ''k'', objptr := \<lparr>obj_id = 0, gen = 3\<rparr>\<rparr>"
  let ?d = "(newBuffer ''(abc) '' 0)\<lparr>objptr := \<lparr>obj_id = 7, gen = 0\<rparr>\<rparr>"
  have a: "readToken ?a = (Str ''abc'', snd (readToken ?a))" by (simp add: tok_simps)
  have c: "readToken ?c = (Str ''abc'', snd (readToken ?c))" by (simp add: tok_simps)
  have d: "readToken ?d = (Str ''abc'', snd (readToken ?d))" by (simp add: tok_simps)
  from readObject_string_decrypt [OF a, of sample_decrypt 0]
    readObject_string_decrypt [OF c, of sample_decrypt 0]
    readObject_string_decrypt [OF d, of sample_decrypt 0]
  show ?thesis by (simp add: sample_decrypt_def newBuffer_def del: readObject.simps)
qed


subsection \<open>Stream start\<close>

text \<open>
  After a read that succeeded the position sits inside the buffered bytes, the
  offset has advanced by one, and one byte can be pushed back.
\<close>

lemma readByte_readOffset:
  assumes "readByte b = (c, None, b1)" and "pos b \<le> length (buf b)"
  shows "readOffset b1 = readOffset b + 1 \<and> 0 < pos b1 \<and> pos b1 \<le> length (buf b1)"
proof (cases "pos b \<ge> length (buf b)")
  case False
  with assms show ?thesis
    by (auto simp: readByte_def readOffset_def)
next
  case True
  obtain rel err b0 where r: "reload b = (rel, err, b0)"
    by (cases "reload b") auto
  from assms(1) r True have e: "err = None"
    by (auto simp: readByte_def split: if_splits)
  note ok = reload_ok [OF r [unfolded e]]
  obtain data err' rd' where rr: "Read (rdr b) (bufcap - offset b mod bufcap) = (data, err', rd')"
    by (cases "Read (rdr b) (bufcap - offset b mod bufcap)") auto
  from r rr e ok have b0: "offset b0 = offset b + length (buf b0)"
    by (auto simp: reload_def split: if_splits)
  from assms(1) r e ok True have b1: "b1 = b0\<lparr>pos := 1\<rparr>"
    by (auto simp: readByte_def split: if_splits)
  from b0 b1 ok True assms(2) show ?thesis
    by (cases "buf b0") (simp_all add: readOffset_def)
qed

lemma unreadByte_readOffset: "0 < pos b \<Longrightarrow> readOffset (unreadByte b) = readOffset b - 1"
  by (simp add: unreadByte_def readOffset_def)

text \<open>
  C3. A dictionary (the loop of \<^verbatim>\<open>readDict\<close> ended at \<^verbatim>\<open>>>\<close> with the map \<open>x\<close>) is
  followed by the Keyword \<^verbatim>\<open>stream\<close> and a line ending: LF alone, CR LF, or CR and
  another byte \<open>d\<close>, which is pushed back. Then \<^verbatim>\<open>readDict\<close> returns a Stream carrying
  \<open>x\<close>, the active object identity and, as its offset, the current offset of the
  byte source right behind the line ending, which is the buffer state that
  \<^verbatim>\<open>readDict\<close> leaves. When the buffer position is inside the buffered bytes, that
  offset is the offset behind the keyword plus the length of the line ending (1
  for LF and for CR, 2 for CR LF): the first payload byte in each case. For a
  lone CR the code reads one byte ahead; the byte \<open>d\<close> is that byte.
\<close>

theorem readDict_stream_payloadOffset:
  assumes "readDict_loop dec n Map.empty b0 = Some (Inr x, b)"
    and "allowStream b"
    and "readToken b = (Keyword ''stream'', b1)"
    and "readByte b1 = (c, None, b2)"
    and "c = LF \<or> c = CR \<and> readByte b2 = (d, None, b3)"
  shows "readDict dec (Suc n) b0 =
           Some (Stream x (objptr b)
                   (readOffset (if c = LF then b2 else if d = LF then b3 else unreadByte b3)),
                 if c = LF then b2 else if d = LF then b3 else unreadByte b3) \<and>
         (pos b1 \<le> length (buf b1) \<longrightarrow>
            readOffset (if c = LF then b2 else if d = LF then b3 else unreadByte b3) =
              readOffset b1 + (if c = CR \<and> d = LF then 2 else 1))"
proof -
  note f1 = readToken_fields [OF assms(3)]
  note f2 = readByte_fields [OF assms(4)]
  have LFCR: "LF \<noteq> CR" by (simp add: LF_def CR_def)
  show ?thesis
  proof (cases "c = LF")
    case True
    with assms(1-4) f1 f2 LFCR
    have "readDict dec (Suc n) b0 = Some (Stream x (objptr b) (readOffset b2), b2)"
      by (simp add: readDict_stream_def)
    with True LFCR readByte_readOffset [OF assms(4)] show ?thesis
      by simp
  next
    case False
    with assms(5) have c: "c = CR" and r3: "readByte b2 = (d, None, b3)"
      by auto
    note f3 = readByte_fields [OF r3]
    from assms(1-4) c r3 f1 f2 f3 LFCR
    have "readDict dec (Suc n) b0 =
            Some (Stream x (objptr b)
                   (readOffset (if d = LF then b3 else unreadByte b3)),
                  if d = LF then b3 else unreadByte b3)"
      by (simp add: readDict_stream_def)
    moreover
    have "readOffset (if d = LF then b3 else unreadByte b3) =
            readOffset b1 + (if d = LF then 2 else 1)"
      if p: "pos b1 \<le> length (buf b1)"
    proof -
      from readByte_readOffset [OF assms(4) p]
      have s1: "readOffset b2 = readOffset b1 + 1" "pos b2 \<le> length (buf b2)" by simp_all
      from readByte_readOffset [OF r3 s1(2)]
      have s2: "readOffset b3 = readOffset b2 + 1" "0 < pos b3" by simp_all
      from s1(1) s2 unreadByte_readOffset [of b3] show ?thesis by simp
    qed
    ultimately show ?thesis using False c by simp
  qed
qed

text \<open>
  The dictionary \<^verbatim>\<open><</A 1>>\<close> (8 bytes) and \<^verbatim>\<open>stream\<close> (6 bytes), followed by LF, by
  CR LF and by CR alone, and then the payload \<^verbatim>\<open>XY\<close>: the offsets recorded are 15, 16
  and 15, the position of \<^verbatim>\<open>X\<close> each time.
\<close>

theorem readDict_stream_payloadOffset_witness:
  "map_option fst
     (readDict sample_decrypt (Suc (Suc (Suc (Suc 0))))
        (snd (readToken (newBuffer (''<</A 1>>stream'' @ [LF] @ ''XY'') 0)))) =
     Some (Stream [''A'' \<mapsto> Int64 1] \<lparr>obj_id = 0, gen = 0\<rparr> 15) \<and>
   map_option fst
     (readDict sample_decrypt (Suc (Suc (Suc (Suc 0))))
        (snd (readToken (newBuffer (''<</A 1>>stream'' @ [CR, LF] @ ''XY'') 0)))) =
     Some (Stream [''A'' \<mapsto> Int64 1] \<lparr>obj_id = 0, gen = 0\<rparr> 16) \<and>
   map_option fst
     (readDict sample_decrypt (Suc (Suc (Suc (Suc 0))))
        (snd (readToken (newBuffer (''<</A 1>>stream'' @ [CR] @ ''XY'') 0)))) =
     Some (Stream [''A'' \<mapsto> Int64 1] \<lparr>obj_id = 0, gen = 0\<rparr> 15)"
proof -
  let ?n = "Suc (Suc (Suc 0))"
  let ?x = "[''A'' \<mapsto> Int64 1]"
  let ?az = "snd (readToken (newBuffer (''<</A 1>>stream'' @ [LF] @ ''XY'') 0))"
  let ?a = "snd (the (readDict_loop sample_decrypt ?n Map.empty ?az))"
  let ?a1 = "snd (readToken ?a)"
  let ?a2 = "snd (snd (readByte ?a1))"
  let ?a3 = "snd (snd (readByte ?a2))"
  let ?ad = "fst (readByte ?a2)"
  have a_1: "readDict_loop sample_decrypt ?n Map.empty ?az = Some (Inr ?x, ?a)"
    by (simp add: obj_simps)
  have a_2: "allowStream ?a"
    by (simp add: obj_simps)
  have a_3: "readToken ?a = (Keyword ''stream'', ?a1)"
    by (simp add: obj_simps)
  have a_4: "readByte ?a1 = (LF, None, ?a2)"
    by (simp add: obj_simps)
  have a_5: "LF = LF \<or> LF = CR \<and> readByte ?a2 = (?ad, None, ?a3)"
    by (simp add: obj_simps)
  have a_6: "pos ?a1 \<le> length (buf ?a1)" "objptr ?a = \<lparr>obj_id = 0, gen = 0\<rparr>"
    "readOffset ?a1 = 14" "True"
    by (simp_all add: obj_simps)
  from readDict_stream_payloadOffset [OF a_1 a_2 a_3 a_4 a_5] a_6
  have a: "map_option fst (readDict sample_decrypt (Suc ?n) ?az) =
           Some (Stream ?x \<lparr>obj_id = 0, gen = 0\<rparr> 15)"
    by (simp add: LF_def CR_def del: readDict.simps)
  let ?cz = "snd (readToken (newBuffer (''<</A 1>>stream'' @ [CR, LF] @ ''XY'') 0))"
  let ?c = "snd (the (readDict_loop sample_decrypt ?n Map.empty ?cz))"
  let ?c1 = "snd (readToken ?c)"
  let ?c2 = "snd (snd (readByte ?c1))"
  let ?c3 = "snd (snd (readByte ?c2))"
  let ?cd = "fst (readByte ?c2)"
  have c_1: "readDict_loop sample_decrypt ?n Map.empty ?cz = Some (Inr ?x, ?c)"
    by (simp add: obj_simps)
  have c_2: "allowStream ?c"
    by (simp add: obj_simps)
  have c_3: "readToken ?c = (Keyword ''stream'', ?c1)"
    by (simp add: obj_simps)
  have c_4: "readByte ?c1 = (CR, None, ?c2)"
    by (simp add: obj_simps)
  have c_5: "CR = LF \<or> CR = CR \<and> readByte ?c2 = (?cd, None, ?c3)"
    by (simp add: obj_simps)
  have c_6: "pos ?c1 \<le> length (buf ?c1)" "objptr ?c = \<lparr>obj_id = 0, gen = 0\<rparr>"
    "readOffset ?c1 = 14" "?cd = LF"
    by (simp_all add: obj_simps)
  from readDict_stream_payloadOffset [OF c_1 c_2 c_3 c_4 c_5] c_6
  have c: "map_option fst (readDict sample_decrypt (Suc ?n) ?cz) =
           Some (Stream ?x \<lparr>obj_id = 0, gen = 0\<rparr> 16)"
    by (simp add: LF_def CR_def del: readDict.simps)
  let ?ez = "snd (readToken (newBuffer (''<</A 1>>stream'' @ [CR] @ ''XY'') 0))"
  let ?e = "snd (the (readDict_loop sample_decrypt ?n Map.empty ?ez))"
  let ?e1 = "snd (readToken ?e)"
  let ?e2 = "snd (snd (readByte ?e1))"
  let ?e3 = "snd (snd (readByte ?e2))"
  let ?ed = "fst (readByte ?e2)"
  have e_1: "readDict_loop sample_decrypt ?n Map.empty ?ez = Some (Inr ?x, ?e)"
    by (simp add: obj_simps)
  have e_2: "allowStream ?e"
    by (simp add: obj_simps)
  have e_3: "readToken ?e = (Keyword ''stream'', ?e1)"
    by (simp add: obj_simps)
  have e_4: "readByte ?e1 = (CR, None, ?e2)"
    by (simp add: obj_simps)
  have e_5: "CR = LF \<or> CR = CR \<and> readByte ?e2 = (?ed, None, ?e3)"
    by (simp add: obj_simps)
  have e_6: "pos ?e1 \<le> length (buf ?e1)" "objptr ?e = \<lparr>obj_id = 0, gen = 0\<rparr>"
    "readOffset ?e1 = 14" "?ed \<noteq> LF"
    by (simp_all add: obj_simps)
  from readDict_stream_payloadOffset [OF e_1 e_2 e_3 e_4 e_5] e_6
  have e: "map_option fst (readDict sample_decrypt (Suc ?n) ?ez) =
           Some (Stream ?x \<lparr>obj_id = 0, gen = 0\<rparr> 15)"
    by (simp add: LF_def CR_def del: readDict.simps)
  from a c e show ?thesis by simp
qed


subsection \<open>Octal escapes in literal strings\<close>

lemma octal_digit_other_cases:
  assumes "octal_digit c"
  shows "c \<noteq> CHR ''n''" "c \<noteq> CHR ''r''" "c \<noteq> CHR ''b''" "c \<noteq> CHR ''t''" "c \<noteq> CHR ''f''"
    "c \<noteq> CHR ''(''" "c \<noteq> CHR '')''" "c \<noteq> BSL" "c \<noteq> CR" "c \<noteq> LF"
  using assms by (auto simp: BSL_def CR_def LF_def)

lemma readLiteralString_loop_octal_step:
  assumes "\<not> eof b"
    and "readByte b = (BSL, None, b1)"
    and "readByte b1 = (c1, None, b2)" and "octal_digit c1"
    and "readLiteralString_octal (ord c1 - ord CHR ''0'') 2 b2 = (Inr x, b')"
  shows "readLiteralString_loop tmp depth b = readLiteralString_loop (tmp @ [char_of x]) depth b'"
proof -
  have nb: "BSL \<noteq> CHR ''(''" "BSL \<noteq> CHR '')''" by (simp_all add: BSL_def)
  show ?thesis
    using assms nb octal_digit_other_cases [OF assms(4)]
    by (subst readLiteralString_loop.simps) simp
qed

text \<open>
  C7. Inside a literal string (the loop of \<^verbatim>\<open>readLiteralString\<close> is running with
  the bytes \<open>tmp\<close> collected), a backslash is followed by the octal digit \<open>c1\<close> and
  then by the byte \<open>c2\<close>. With one digit (\<open>c2\<close> is no octal digit), two digits
  (\<open>c2\<close> is one and the next byte \<open>c3\<close> is not) or three digits, the loop goes on
  with exactly one byte appended to \<open>tmp\<close>, and a byte after the digits that is no
  digit is pushed back. The byte appended has the value \<open>x mod 256\<close>, where \<open>x\<close>
  is the number the digits denote in base 8, also when \<open>x\<close> exceeds 255.
\<close>

theorem readLiteralString_octal_escape:
  assumes "\<not> eof b"
    and "readByte b = (BSL, None, b1)"
    and "readByte b1 = (c1, None, b2)" and "octal_digit c1"
    and "readByte b2 = (c2, None, b3)"
  shows "(\<not> octal_digit c2 \<longrightarrow>
            readLiteralString_loop tmp depth b =
              readLiteralString_loop (tmp @ [char_of (ord c1 - ord CHR ''0'')]) depth
                (unreadByte b3) \<and>
            ord (char_of (ord c1 - ord CHR ''0'')) = (ord c1 - ord CHR ''0'') mod 256) \<and>
         (octal_digit c2 \<longrightarrow>
            (\<forall>c3 b4. readByte b3 = (c3, None, b4) \<longrightarrow>
               (\<not> octal_digit c3 \<longrightarrow>
                  readLiteralString_loop tmp depth b =
                    readLiteralString_loop
                      (tmp @ [char_of ((ord c1 - ord CHR ''0'') * 8 + (ord c2 - ord CHR ''0''))])
                      depth (unreadByte b4) \<and>
                  ord (char_of ((ord c1 - ord CHR ''0'') * 8 + (ord c2 - ord CHR ''0''))) =
                    ((ord c1 - ord CHR ''0'') * 8 + (ord c2 - ord CHR ''0'')) mod 256) \<and>
               (octal_digit c3 \<longrightarrow>
                  readLiteralString_loop tmp depth b =
                    readLiteralString_loop
                      (tmp @ [char_of (((ord c1 - ord CHR ''0'') * 8 + (ord c2 - ord CHR ''0'')) * 8
                                         + (ord c3 - ord CHR ''0''))])
                      depth b4 \<and>
                  ord (char_of (((ord c1 - ord CHR ''0'') * 8 + (ord c2 - ord CHR ''0'')) * 8
                                  + (ord c3 - ord CHR ''0''))) =
                    (((ord c1 - ord CHR ''0'') * 8 + (ord c2 - ord CHR ''0'')) * 8
                       + (ord c3 - ord CHR ''0'')) mod 256)))"
proof -
  note step = readLiteralString_loop_octal_step [OF assms(1-4)]
  have one: "readLiteralString_octal (ord c1 - ord CHR ''0'') 2 b2 =
               (Inr (ord c1 - ord CHR ''0''), unreadByte b3)"
    if "\<not> octal_digit c2"
    using that assms(5) by (auto simp: numeral_2_eq_2)
  have two: "readLiteralString_octal (ord c1 - ord CHR ''0'') 2 b2 =
               (Inr ((ord c1 - ord CHR ''0'') * 8 + (ord c2 - ord CHR ''0'')), unreadByte b4)"
    if "octal_digit c2" "readByte b3 = (c3, None, b4)" "\<not> octal_digit c3" for c3 b4
    using that assms(5) by (auto simp: numeral_2_eq_2)
  have three: "readLiteralString_octal (ord c1 - ord CHR ''0'') 2 b2 =
               (Inr (((ord c1 - ord CHR ''0'') * 8 + (ord c2 - ord CHR ''0'')) * 8
                       + (ord c3 - ord CHR ''0'')), b4)"
    if "octal_digit c2" "readByte b3 = (c3, None, b4)" "octal_digit c3" for c3 b4
    using that assms(5) by (auto simp: numeral_2_eq_2)
  show ?thesis
    using step [OF one] step [OF two] step [OF three] by (simp only: of_char_of) blast
qed

text \<open>
  The strings \<^verbatim>\<open>(\101)\<close>, \<^verbatim>\<open>(\12)\<close>, \<^verbatim>\<open>(\7x)\<close> and \<^verbatim>\<open>(\777)\<close>: the bytes are \<^verbatim>\<open>A\<close> (65),
  line feed (10), 7 before \<^verbatim>\<open>x\<close>, and 255, which is 511 mod 256. (The second
  string is followed by one more byte, so that the byte after \<^verbatim>\<open>)\<close> can be named.)
\<close>

theorem readLiteralString_octal_escape_witness:
  "fst (readToken (newBuffer (''('' @ [BSL] @ ''101)'') 0)) = Str ''A'' \<and>
   fst (readToken (newBuffer (''('' @ [BSL] @ ''12)z'') 0)) = Str [CHR 0x0A] \<and>
   fst (readToken (newBuffer (''('' @ [BSL] @ ''7x)'') 0)) = Str [CHR 0x07, CHR ''x''] \<and>
   fst (readToken (newBuffer (''('' @ [BSL] @ ''777)'') 0)) = Str [CHR 0xFF]"
proof -
  let ?ai = "newBuffer (''('' @ [BSL] @ ''101)'') 0"
  let ?a = "snd (snd (readByte ?ai))"
  let ?ap = "snd (snd (readByte ?a))"
  let ?aq = "snd (snd (readByte ?ap))"
  let ?ar = "snd (snd (readByte ?aq))"
  let ?as = "snd (snd (readByte ?ar))"
  have a_1: "\<not> eof ?a"
    by (simp add: readByte_def reload_def Read_def bufcap_def newBuffer_def BSL_def)
  have a_2: "readByte ?a = (BSL, None, ?ap)"
    by (simp add: readByte_def reload_def Read_def bufcap_def newBuffer_def BSL_def)
  have a_3: "readByte ?ap = (CHR ''1'', None, ?aq)"
    by (simp add: readByte_def reload_def Read_def bufcap_def newBuffer_def BSL_def)
  have a_4: "octal_digit CHR ''1''"
    by simp
  have a_5: "readByte ?aq = (CHR ''0'', None, ?ar)"
    by (simp add: readByte_def reload_def Read_def bufcap_def newBuffer_def BSL_def)
  have a_6: "readByte ?ar = (CHR ''1'', None, ?as)"
    by (simp add: readByte_def reload_def Read_def bufcap_def newBuffer_def BSL_def)
  have a_start: "readToken ?ai = readLiteralString_loop [] 1 ?a"
    by (simp add: tok_simps del: readLiteralString_loop.simps)
  from readLiteralString_octal_escape [OF a_1 a_2 a_3 a_4 a_5, of "[]" 1] a_6
  have "readLiteralString_loop [] 1 ?a =
          readLiteralString_loop [char_of (65::int)] 1 ?as"
    by (auto simp del: readLiteralString_loop.simps)
  with a_start have a: "fst (readToken ?ai) = Str ''A''"
    by (simp add: tok_simps)
  let ?ci = "newBuffer (''('' @ [BSL] @ ''12)z'') 0"
  let ?c = "snd (snd (readByte ?ci))"
  let ?cp = "snd (snd (readByte ?c))"
  let ?cq = "snd (snd (readByte ?cp))"
  let ?cr = "snd (snd (readByte ?cq))"
  let ?cs = "snd (snd (readByte ?cr))"
  have c_1: "\<not> eof ?c"
    by (simp add: readByte_def reload_def Read_def bufcap_def newBuffer_def BSL_def)
  have c_2: "readByte ?c = (BSL, None, ?cp)"
    by (simp add: readByte_def reload_def Read_def bufcap_def newBuffer_def BSL_def)
  have c_3: "readByte ?cp = (CHR ''1'', None, ?cq)"
    by (simp add: readByte_def reload_def Read_def bufcap_def newBuffer_def BSL_def)
  have c_4: "octal_digit CHR ''1''"
    by simp
  have c_5: "readByte ?cq = (CHR ''2'', None, ?cr)"
    by (simp add: readByte_def reload_def Read_def bufcap_def newBuffer_def BSL_def)
  have c_6: "readByte ?cr = (CHR '')'', None, ?cs)"
    by (simp add: readByte_def reload_def Read_def bufcap_def newBuffer_def BSL_def)
  have c_start: "readToken ?ci = readLiteralString_loop [] 1 ?c"
    by (simp add: tok_simps del: readLiteralString_loop.simps)
  from readLiteralString_octal_escape [OF c_1 c_2 c_3 c_4 c_5, of "[]" 1] c_6
  have "readLiteralString_loop [] 1 ?c =
          readLiteralString_loop [char_of (10::int)] 1 (unreadByte ?cs)"
    by (auto simp del: readLiteralString_loop.simps)
  with c_start have c: "fst (readToken ?ci) = Str [CHR 0x0A]"
    by (simp add: tok_simps)
  let ?ei = "newBuffer (''('' @ [BSL] @ ''7x)'') 0"
  let ?e = "snd (snd (readByte ?ei))"
  let ?ep = "snd (snd (readByte ?e))"
  let ?eq = "snd (snd (readByte ?ep))"
  let ?er = "snd (snd (readByte ?eq))"
  let ?es = "snd (snd (readByte ?er))"
  have e_1: "\<not> eof ?e"
    by (simp add: readByte_def reload_def Read_def bufcap_def newBuffer_def BSL_def)
  have e_2: "readByte ?e = (BSL, None, ?ep)"
    by (simp add: readByte_def reload_def Read_def bufcap_def newBuffer_def BSL_def)
  have e_3: "readByte ?ep = (CHR ''7'', None, ?eq)"
    by (simp add: readByte_def reload_def Read_def bufcap_def newBuffer_def BSL_def)
  have e_4: "octal_digit CHR ''7''"
    by simp
  have e_5: "readByte ?eq = (CHR ''x'', None, ?er)"
    by (simp add: readByte_def reload_def Read_def bufcap_def newBuffer_def BSL_def)
  have e_6: "readByte ?er = (CHR '')'', None, ?es)"
    by (simp add: readByte_def reload_def Read_def bufcap_def newBuffer_def BSL_def)
  have e_start: "readToken ?ei = readLiteralString_loop [] 1 ?e"
    by (simp add: tok_simps del: readLiteralString_loop.simps)
  from readLiteralString_octal_escape [OF e_1 e_2 e_3 e_4 e_5, of "[]" 1] e_6
  have "readLiteralString_loop [] 1 ?e =
          readLiteralString_loop [char_of (7::int)] 1 (unreadByte ?er)"
    by (auto simp del: readLiteralString_loop.simps)
  with e_start have e: "fst (readToken ?ei) = Str [CHR 0x07, CHR ''x'']"
    by (simp add: tok_simps)
  let ?gi = "newBuffer (''('' @ [BSL] @ ''777)'') 0"
  let ?g = "snd (snd (readByte ?gi))"
  let ?gp = "snd (snd (readByte ?g))"
  let ?gq = "snd (snd (readByte ?gp))"
  let ?gr = "snd (snd (readByte ?gq))"
  let ?gs = "snd (snd (readByte ?gr))"
  have g_1: "\<not> eof ?g"
    by (simp add: readByte_def reload_def Read_def bufcap_def newBuffer_def BSL_def)
  have g_2: "readByte ?g = (BSL, None, ?gp)"
    by (simp add: readByte_def reload_def Read_def bufcap_def newBuffer_def BSL_def)
  have g_3: "readByte ?gp = (CHR ''7'', None, ?gq)"
    by (simp add: readByte_def reload_def Read_def bufcap_def newBuffer_def BSL_def)
  have g_4: "octal_digit CHR ''7''"
    by simp
  have g_5: "readByte ?gq = (CHR ''7'', None, ?gr)"
    by (simp add: readByte_def reload_def Read_def bufcap_def newBuffer_def BSL_def)
  have g_6: "readByte ?gr = (CHR ''7'', None, ?gs)"
    by (simp add: readByte_def reload_def Read_def bufcap_def newBuffer_def BSL_def)
  have g_start: "readToken ?gi = readLiteralString_loop [] 1 ?g"
    by (simp add: tok_simps del: readLiteralString_loop.simps)
  from readLiteralString_octal_escape [OF g_1 g_2 g_3 g_4 g_5, of "[]" 1] g_6
  have "readLiteralString_loop [] 1 ?g =
          readLiteralString_loop [char_of (511::int)] 1 ?gs"
    by (auto simp del: readLiteralString_loop.simps)
  with g_start have g: "fst (readToken ?gi) = Str [CHR 0xFF]"
    by (simp add: tok_simps)
  from a c e g show ?thesis by simp
qed


subsection \<open>What the code does where it departs from the specification\<close>

text \<open>
  C4. A dictionary followed by \<^verbatim>\<open>stream\<close> and a byte that is neither CR nor LF (here
  a space): \<^verbatim>\<open>readDict\<close> returns the message of \<^verbatim>\<open>b.errorf\<close> as a Go \<^verbatim>\<open>string\<close>, and
  \<^verbatim>\<open>readObject\<close> returns that string as the object together with a \<^verbatim>\<open>nil\<close> error.
\<close>

theorem readObject_stream_no_newline:
  "map_option fst (readObject dec (Suc (Suc (Suc n))) (newBuffer ''<<>>stream x'' 0)) =
     Some (Str ''stream keyword not followed by newline'', None)"
  by (simp add: obj_simps)

text \<open>
  The path that C5 is about, when the nested \<^verbatim>\<open>readObject\<close> succeeds: the definition
  is returned and the active object identity is the one from before the call.
\<close>

lemma readObject_objdef_restores:
  assumes "allowObjptr b"
    and "readToken b = (Int64 t1, b1)" and "fits_uint32 t1"
    and "readToken b1 = (Int64 t2, b2)" and "fits_uint16 t2"
    and "readToken b2 = (Keyword ''obj'', b3)"
    and "readObject dec n (b3\<lparr>objptr := mk_objptr t1 t2\<rparr>) = Some ((obj, None), b4)"
  shows "\<exists>b'. readObject dec (Suc n) b = Some ((Objdef (mk_objptr t1 t2) obj, None), b') \<and>
              objptr b' = objptr b"
proof -
  from assms(1) readToken_fields(2) [OF assms(2)] have a: "allowObjptr b1" by simp
  from readToken_fields(6) [OF assms(2)] readToken_fields(6) [OF assms(4)]
    readToken_fields(6) [OF assms(6)]
  have o: "objptr b3 = objptr b" by simp
  show ?thesis
  proof (cases "is_stream obj")
    case True
    with a o assms(2-7) show ?thesis
      by (simp add: readObject_decrypt_def)
  next
    case False
    obtain tok4 b5 where t: "readToken b4 = (tok4, b5)"
      by (cases "readToken b4") auto
    with False a o assms(2-7) show ?thesis
      by (simp add: readObject_decrypt_def unreadToken_def)
  qed
qed

text \<open>
  C5. \<^verbatim>\<open>1 0 obj foo\<close>: \<^verbatim>\<open>readObject\<close> commits to the definition of object (1, 0) and
  sets the active object identity; the nested \<^verbatim>\<open>readObject\<close> fails on the keyword
  \<^verbatim>\<open>foo\<close>, and \<^verbatim>\<open>return nil, err\<close> leaves before \<^verbatim>\<open>b.objptr = old\<close>. The identity
  was (0, 0) before the call and is (1, 0) after it.
\<close>

theorem readObject_objptr_after_error:
  "objptr (newBuffer ''1 0 obj foo '' 0) = \<lparr>obj_id = 0, gen = 0\<rparr> \<and>
   map_option (\<lambda>(r, b'). (r, objptr b'))
     (readObject dec (Suc (Suc n)) (newBuffer ''1 0 obj foo '' 0)) =
     Some ((Null, Some (UnexpectedKeyword ''foo'')), \<lparr>obj_id = 1, gen = 0\<rparr>)"
  by (simp add: obj_simps)

text \<open>
  C6. The keyword \<^verbatim>\<open>foo\<close> in object position is the fatal \<^verbatim>\<open>UnexpectedKeyword\<close>. Read
  directly, \<^verbatim>\<open>readObject\<close> returns the error. As a dictionary value, \<^verbatim>\<open>readDict\<close>
  answers the error with \<^verbatim>\<open>return nil\<close>, and \<^verbatim>\<open>readObject\<close> returns Null and no error.
  As an array element, \<^verbatim>\<open>readArray\<close> returns the error value as its object, and
  \<^verbatim>\<open>readObject\<close> returns that value as the object and no error.
\<close>

theorem readObject_error_in_container:
  "map_option fst (readObject dec (Suc n) (newBuffer ''foo '' 0)) =
     Some (Null, Some (UnexpectedKeyword ''foo'')) \<and>
   map_option fst (readObject dec (Suc (Suc (Suc (Suc n)))) (newBuffer ''<</A foo>> '' 0)) =
     Some (Null, None) \<and>
   map_option fst (readObject dec (Suc (Suc (Suc (Suc n)))) (newBuffer ''[foo] '' 0)) =
     Some (Err (UnexpectedKeyword ''foo''), None)"
  by (simp add: obj_simps)

text \<open>
  In a buffer at its end \<^verbatim>\<open>readToken\<close> returns the read error \<^verbatim>\<open>io.EOF\<close> and the buffer
  stays at its end, and the loop of \<^verbatim>\<open>readArray\<close> does not return, with any fuel.
\<close>

lemma readToken_at_end:
  assumes "at_end b"
  shows "fst (readToken b) = Err EOF \<and> at_end (snd (readToken b))"
  using assms by (simp add: at_end_def readToken_def readByte_def reload_def Read_def)

lemma readObject_unread_Err:
  "readObject dec (Suc n) (unreadToken (Err e) b) = Some ((Err e, None), b)"
  by (simp add: readObject_decrypt_def)

lemma readArray_loop_at_end: "at_end b \<Longrightarrow> readArray_loop dec n x b = None"
proof (induction n arbitrary: x b)
  case 0
  show ?case by simp
next
  case (Suc n)
  obtain b1 where t: "readToken b = (Err EOF, b1)" and e: "at_end b1"
    using readToken_at_end [OF Suc.prems] by (cases "readToken b") auto
  show ?case
  proof (cases n)
    case 0
    with t show ?thesis by simp
  next
    case (Suc m)
    from Suc.IH [OF e] have "readArray_loop dec n (x @ [Err EOF]) b1 = None" .
    with t Suc readObject_unread_Err [of dec m EOF b1] show ?thesis
      by (simp del: readObject.simps)
  qed
qed

text \<open>
  C8. The input \<^verbatim>\<open>[\<close> ends before the array is closed. At the end of the input
  \<^verbatim>\<open>readToken\<close> returns the read error \<^verbatim>\<open>io.EOF\<close>, which is neither \<^verbatim>\<open>nil\<close> nor the
  Keyword \<^verbatim>\<open>]\<close>. The loop of \<^verbatim>\<open>readArray\<close> pushes it back, \<^verbatim>\<open>readObject\<close> returns it as
  an object, the loop appends it and reads again: \<^verbatim>\<open>readObject\<close> does not return,
  whatever the fuel.
\<close>

theorem readArray_no_return_at_end:
  "readObject dec n (newBuffer ''['' 0) = None"
proof (cases n)
  case 0
  then show ?thesis by simp
next
  case (Suc m)
  obtain b1 where t: "readToken (newBuffer ''['' 0) = (Keyword ''['', b1)" and e: "at_end b1"
    by (simp add: at_end_def tok_simps)
  have "readArray dec m b1 = None"
    using readArray_loop_at_end [OF e] by (cases m) simp_all
  with t Suc show ?thesis by simp
qed

text \<open>
  C10. Under \<^verbatim>\<open>allowEOF\<close> the input \<^verbatim>\<open>(abc\<close> ends inside the literal string. The read
  that meets the end sets \<^verbatim>\<open>eof\<close> and returns \<^verbatim>\<open>io.EOF\<close>, and \<^verbatim>\<open>readLiteralString\<close>
  returns that error before the loop condition \<^verbatim>\<open>!b.eof\<close> is looked at again: the
  token is the error and not the bytes \<^verbatim>\<open>abc\<close>.
\<close>

theorem readLiteralString_eof:
  "readToken ((newBuffer ''(abc'' 0)\<lparr>allowEOF := True\<rparr>) =
     (Err EOF, (newBuffer [] 4)\<lparr>allowEOF := True, eof := True\<rparr>)"
  by (simp add: tok_simps)


end
